theory Spec2Isabelle
  imports Complex_Main "HOL-Library.AList"
begin

section \<open>Nodes of the HNSW graph (graph.go)\<close>

text \<open>
  A \<open>float32\<close> is modelled by its order-relevant cases: the two infinities, a finite
  value and NaN. Every comparison with NaN is false, as in IEEE 754. A \<open>float64\<close>
  is modelled in the same way; the model compares such values and never computes
  with them.
\<close>

datatype f32 = NegInf | Fin real | PosInf | NaN

fun f32_gt :: "f32 \<Rightarrow> f32 \<Rightarrow> bool" where
  "f32_gt NaN _ = False"
| "f32_gt _ NaN = False"
| "f32_gt NegInf _ = False"
| "f32_gt _ NegInf = True"
| "f32_gt PosInf PosInf = False"
| "f32_gt PosInf _ = True"
| "f32_gt (Fin a) (Fin b) = (b < a)"
| "f32_gt (Fin a) PosInf = False"

type_synonym f64 = f32

type_synonym Vector = "f32 list"

record 'k Node =
  Key :: 'k
  Value :: Vector

datatype error =
    LengthMismatch
  | MlZero
  | DimMismatch nat nat
  | InvalidLevel
  | DistanceUnset
  | EmptyNeighborhood
  | NodeNil
  | NodeNotUpdated
  | NodeNotAdded
  | DistError string

definition MakeNode :: "'k \<Rightarrow> Vector \<Rightarrow> 'k Node" where
  "MakeNode key vec = \<lparr>Key = key, Value = vec\<rparr>"

text \<open>
  \<open>MakeNodes\<close>: the length check, then the loop \<open>for i := range keys\<close> filling slot
  \<open>i\<close> of a fresh slice of length \<open>len(keys)\<close>.
\<close>

definition MakeNodes :: "'k list \<Rightarrow> Vector list \<Rightarrow> error + 'k Node list" where
  "MakeNodes keys vecs =
     (if length keys \<noteq> length vecs then Inl LengthMismatch
      else Inr (map (\<lambda>i. MakeNode (keys ! i) (vecs ! i)) [0..<length keys]))"

section \<open>Go maps, pointers and the object store\<close>

text \<open>
  A Go map is an association list read through \<open>map_of\<close>: \<open>m[k] = v\<close> is
  \<open>AList.update\<close>, \<open>delete(m, k)\<close> is \<open>AList.delete\<close>, \<open>len(m)\<close> counts the
  distinct keys. A \<open>nil\<close> map and an empty map behave alike in every operation the
  package uses, so both are \<open>[]\<close>.
\<close>

definition m_len :: "('k \<times> 'v) list \<Rightarrow> nat" where
  "m_len m = length (remdups (map fst m))"

definition m_keys :: "('k::linorder \<times> 'v) list \<Rightarrow> 'k list" where
  "m_keys m = sort (remdups (map fst m))"

text \<open>
  What lies outside \<open>graph.go\<close>:

  \<^item> the package-level \<open>CosineDistance\<close> (file \<open>distance.go\<close>);

  \<^item> the order in which \<open>range\<close> walks a map, which Go leaves unspecified. The
    order is an oracle: asked at time \<open>t\<close> about the keys \<open>ks\<close>, the walk takes them
    in the order \<open>range_order t ks\<close> (used when it is a permutation of \<open>ks\<close>, else
    \<open>ks\<close> itself is the order);

  \<^item> what \<open>range\<close> does with the entries created in the map while it is walked: Go
    may produce each of them or skip it. \<open>range_skip t ks\<close> tells whether the walk
    ends at time \<open>t\<close>, when every entry it has not produced, of keys \<open>ks\<close>, was
    created after it began;

  \<^item> the \<open>float64\<close> arithmetic of package \<open>math\<close>: \<open>round_log ml n\<close> is the value of
    the Go expression \<open>int(math.Round(math.Log(float64(n)) / math.Log(1 / ml)))\<close>.
\<close>

type_synonym distfn = "Vector \<Rightarrow> Vector \<Rightarrow> error + f32"

record 'k env =
  CosineDistance :: distfn
  range_order :: "nat \<Rightarrow> 'k list \<Rightarrow> 'k list"
  range_skip :: "nat \<Rightarrow> 'k list \<Rightarrow> bool"
  round_log :: "f64 \<Rightarrow> nat \<Rightarrow> int"

text \<open>
  \<open>*layerNode\<close> pointers are addresses into a store of objects; \<open>tick\<close> is the time
  the oracles are asked at: it counts the \<open>range\<close> statements over maps executed
  and the entries produced by the walks whose map changes under them.

  \<open>ranged\<close> is a \<open>range\<close> over a map that the loop body leaves alone: the walk
  visits the entries present when it starts.
\<close>

record 'k layerNode = "'k Node" +
  neighbors :: "('k \<times> nat) list"

record 'k mem =
  objs :: "nat \<Rightarrow> 'k layerNode"
  next_addr :: nat
  tick :: nat

definition ranged :: "'k::linorder env \<Rightarrow> 'k mem \<Rightarrow> ('k \<times> 'v) list \<Rightarrow> ('k \<times> 'v) list" where
  "ranged ev s m =
     (let ks = m_keys m; p = range_order ev (tick s) ks
      in map (\<lambda>k. (k, the (map_of m k))) (if sort p = ks then p else ks))"

definition tock :: "'k mem \<Rightarrow> 'k mem" where
  "tock s = s\<lparr>tick := Suc (tick s)\<rparr>"

definition set_neighbors :: "nat \<Rightarrow> ('k \<times> nat) list \<Rightarrow> 'k mem \<Rightarrow> 'k mem" where
  "set_neighbors a ns s = s\<lparr>objs := (objs s)(a := (objs s a)\<lparr>neighbors := ns\<rparr>)\<rparr>"

text \<open>
  \<open>range_next\<close> is one step of a \<open>range\<close> over a map \<open>m\<close> that the loop body may
  change: \<open>start\<close> are the keys present when the walk began and \<open>produced\<close> the keys
  it has produced. An entry still to produce is old if its key is in \<open>start\<close>, else
  it was created during the walk. The walk ends when no entry is left, or when only
  created ones are left and the oracle skips them; otherwise it produces the entry
  the oracle puts first.
\<close>

definition range_next ::
  "'k::linorder env \<Rightarrow> 'k mem \<Rightarrow> 'k list \<Rightarrow> 'k list \<Rightarrow> ('k \<times> 'v) list \<Rightarrow> ('k \<times> 'v) option" where
  "range_next ev s start produced m =
     (let pending = [k \<leftarrow> m_keys m. k \<notin> set produced];
          old = [k \<leftarrow> pending. k \<in> set start];
          created = [k \<leftarrow> pending. k \<notin> set start];
          p = range_order ev (tick s) (old @ created)
      in if old = [] \<and> (created = [] \<or> range_skip ev (tick s) created) then None
         else (case (if sort p = sort (old @ created) then p else old @ created) of
                 [] \<Rightarrow> None
               | k # _ \<Rightarrow> Some (k, the (map_of m k))))"

text \<open>
  How a call ends: it returns, it panics (a nil dereference), or it does not return
  (the recursion bound of the model is used up, or a loop runs forever).
\<close>

datatype 'a exec = is_Done: Done (the_Done: 'a) | Panic | OutOfFuel

section \<open>Layer nodes: addNeighbor, replenish, isolate\<close>

text \<open>The loop of \<open>addNeighbor\<close> that finds the neighbor with the worst distance.\<close>

fun find_worst ::
  "distfn \<Rightarrow> Vector \<Rightarrow> (nat \<Rightarrow> 'k layerNode) \<Rightarrow> ('k \<times> nat) list \<Rightarrow> f32 \<Rightarrow> nat option
     \<Rightarrow> error + (f32 \<times> nat option)" where
  "find_worst dist_fn v ob [] worstDist worst = Inr (worstDist, worst)"
| "find_worst dist_fn v ob ((k, neighbor) # es) worstDist worst =
     (case dist_fn (Value (ob neighbor)) v of
        Inl err \<Rightarrow> Inl err
      | Inr d \<Rightarrow>
          if f32_gt d worstDist \<or> worst = None
          then find_worst dist_fn v ob es d (Some neighbor)
          else find_worst dist_fn v ob es worstDist worst)"

text \<open>
  \<open>addNeighbor\<close> and \<open>replenish\<close> call each other. Each body takes the other
  function as its first argument; the recursion is tied below.
\<close>

definition addNeighbor_body ::
  "(nat \<Rightarrow> int \<Rightarrow> 'k mem \<Rightarrow> 'k mem exec) \<Rightarrow> 'k::linorder env \<Rightarrow> nat \<Rightarrow> nat \<Rightarrow> int \<Rightarrow> distfn
     \<Rightarrow> 'k mem \<Rightarrow> ('k mem \<times> error option) exec" where
  "addNeighbor_body rep ev n newNode m dist_fn s =
     (let nbrs = AList.update (Key (objs s newNode)) newNode (neighbors (objs s n));
          s1 = set_neighbors n nbrs s
      in if int (m_len nbrs) \<le> m then Done (s1, None)
         else
           (case find_worst dist_fn (Value (objs s1 n)) (objs s1) (ranged ev s1 nbrs) NegInf None of
              Inl err \<Rightarrow> Done (tock s1, Some err)
            | Inr (_, None) \<Rightarrow> Panic
            | Inr (_, Some worst) \<Rightarrow>
                (let s2 = tock s1;
                     s3 = set_neighbors n
                            (AList.delete (Key (objs s2 worst)) (neighbors (objs s2 n))) s2;
                     s4 = set_neighbors worst
                            (AList.delete (Key (objs s3 n)) (neighbors (objs s3 worst))) s3
                 in case rep worst m s4 of
                      Done s5 \<Rightarrow> Done (s5, None)
                    | Panic \<Rightarrow> Panic
                    | OutOfFuel \<Rightarrow> OutOfFuel)))"

text \<open>The inner loop of \<open>replenish\<close>; \<open>True\<close> in the result is its \<open>return\<close>.\<close>

fun replenish_inner ::
  "(nat \<Rightarrow> nat \<Rightarrow> int \<Rightarrow> distfn \<Rightarrow> 'k mem \<Rightarrow> ('k mem \<times> error option) exec) \<Rightarrow> 'k env
     \<Rightarrow> nat \<Rightarrow> int \<Rightarrow> ('k \<times> nat) list \<Rightarrow> 'k mem \<Rightarrow> ('k mem \<times> bool) exec" where
  "replenish_inner addN ev n m [] s = Done (s, False)"
| "replenish_inner addN ev n m ((key, candidate) # cs) s =
     (if map_of (neighbors (objs s n)) key \<noteq> None then replenish_inner addN ev n m cs s
      else if candidate = n then replenish_inner addN ev n m cs s
      else
        (case addN n candidate m (CosineDistance ev) s of
           Done (s1, _) \<Rightarrow>
             if int (m_len (neighbors (objs s1 n))) \<ge> m then Done (s1, True)
             else replenish_inner addN ev n m cs s1
         | Panic \<Rightarrow> Panic
         | OutOfFuel \<Rightarrow> OutOfFuel))"

text \<open>
  The outer loop of \<open>replenish\<close> walks \<open>n.neighbors\<close> while the inner loop inserts
  into that map, so each step asks \<open>range_next\<close> for the entry to produce. The inner
  loop walks the map of \<open>neighbor\<close>, which it does not change: when \<open>neighbor\<close> is
  \<open>n\<close> itself every key it meets is present in \<open>n.neighbors\<close> and is passed over.
  \<open>None\<close> is a walk that never ends.
\<close>

partial_function (option) replenish_outer ::
  "(nat \<Rightarrow> nat \<Rightarrow> int \<Rightarrow> distfn \<Rightarrow> 'k mem \<Rightarrow> ('k mem \<times> error option) exec) \<Rightarrow> 'k::linorder env
     \<Rightarrow> nat \<Rightarrow> int \<Rightarrow> 'k list \<Rightarrow> 'k list \<Rightarrow> 'k mem \<Rightarrow> 'k mem exec option" where
  "replenish_outer addN ev n m start produced s =
     (case range_next ev s start produced (neighbors (objs s n)) of
        None \<Rightarrow> Some (Done s)
      | Some (k, neighbor) \<Rightarrow>
         (case replenish_inner addN ev n m
                 (ranged ev (tock s) (neighbors (objs s neighbor))) (tock (tock s)) of
            Done (s1, stop) \<Rightarrow>
              if stop then Some (Done s1)
              else replenish_outer addN ev n m start (produced @ [k]) s1
          | Panic \<Rightarrow> Some Panic
          | OutOfFuel \<Rightarrow> Some OutOfFuel))"

definition replenish_body ::
  "(nat \<Rightarrow> nat \<Rightarrow> int \<Rightarrow> distfn \<Rightarrow> 'k mem \<Rightarrow> ('k mem \<times> error option) exec) \<Rightarrow> 'k::linorder env
     \<Rightarrow> nat \<Rightarrow> int \<Rightarrow> 'k mem \<Rightarrow> 'k mem exec" where
  "replenish_body addN ev n m s =
     (if int (m_len (neighbors (objs s n))) \<ge> m then Done s
      else (case replenish_outer addN ev n m (m_keys (neighbors (objs s n))) [] s of
              Some r \<Rightarrow> r
            | None \<Rightarrow> OutOfFuel))"

text \<open>
  The mutual recursion, bounded by the depth of nested calls: with bound \<open>0\<close> a call
  does not return.
\<close>

primrec calls ::
  "nat \<Rightarrow> 'k::linorder env \<Rightarrow>
     (nat \<Rightarrow> nat \<Rightarrow> int \<Rightarrow> distfn \<Rightarrow> 'k mem \<Rightarrow> ('k mem \<times> error option) exec) \<times>
     (nat \<Rightarrow> int \<Rightarrow> 'k mem \<Rightarrow> 'k mem exec)" where
  "calls 0 ev = (\<lambda>n newNode m dist_fn s. OutOfFuel, \<lambda>n m s. OutOfFuel)"
| "calls (Suc f) ev =
     (addNeighbor_body (snd (calls f ev)) ev, replenish_body (fst (calls f ev)) ev)"

definition addNeighbor ::
  "nat \<Rightarrow> 'k::linorder env \<Rightarrow> nat \<Rightarrow> nat \<Rightarrow> int \<Rightarrow> distfn \<Rightarrow> 'k mem \<Rightarrow> ('k mem \<times> error option) exec" where
  "addNeighbor f ev = fst (calls f ev)"

definition replenish :: "nat \<Rightarrow> 'k::linorder env \<Rightarrow> nat \<Rightarrow> int \<Rightarrow> 'k mem \<Rightarrow> 'k mem exec" where
  "replenish f ev = snd (calls f ev)"

text \<open>
  \<open>isolate\<close>: the loop over the receiver's neighbors. Its body changes the map of
  \<open>neighbor\<close>. The receiver's own map is left alone unless the receiver is its own
  neighbor, which the package never brings about (\<open>Add\<close> links a new node with
  older ones and \<open>replenish\<close> passes over the receiver), so the walk visits the
  entries present when it starts.
\<close>

fun isolate_loop ::
  "nat \<Rightarrow> 'k::linorder env \<Rightarrow> nat \<Rightarrow> int \<Rightarrow> ('k \<times> nat) list \<Rightarrow> 'k mem \<Rightarrow> 'k mem exec" where
  "isolate_loop f ev n m [] s = Done s"
| "isolate_loop f ev n m ((k, neighbor) # rest) s =
     (case replenish f ev neighbor m
             (set_neighbors neighbor
                (AList.delete (Key (objs s n)) (neighbors (objs s neighbor))) s) of
        Done s1 \<Rightarrow> isolate_loop f ev n m rest s1
      | Panic \<Rightarrow> Panic
      | OutOfFuel \<Rightarrow> OutOfFuel)"

definition isolate :: "nat \<Rightarrow> 'k::linorder env \<Rightarrow> nat \<Rightarrow> int \<Rightarrow> 'k mem \<Rightarrow> 'k mem exec" where
  "isolate f ev n m s = isolate_loop f ev n m (ranged ev s (neighbors (objs s n))) (tock s)"

section \<open>Search within a layer\<close>

record searchCandidate =
  node :: nat
  dist_to :: f32

definition Less :: "searchCandidate \<Rightarrow> searchCandidate \<Rightarrow> bool" where
  "Less s o' = f32_gt (dist_to o') (dist_to s)"

text \<open>
  Modelled from the spec: the package \<open>heap\<close> (imported by \<open>graph.go\<close>, its source is
  not part of the embedded files). The spec describes a heap of candidates ordered by
  distance ascending with \<open>Push\<close>, \<open>Pop\<close> (the minimum), \<open>PopLast\<close> (the maximum),
  \<open>Min\<close>, \<open>Max\<close>, \<open>Len\<close> and \<open>Slice\<close>. Here it is the list of its elements in
  ascending order: \<open>Push\<close> inserts before the first strictly greater element, \<open>Len\<close> is
  \<open>length\<close>, \<open>Slice\<close> is the list itself.
\<close>

type_synonym Heap = "searchCandidate list"

definition heap_Push :: "searchCandidate \<Rightarrow> Heap \<Rightarrow> Heap" where
  "heap_Push x h = takeWhile (\<lambda>y. \<not> Less x y) h @ x # dropWhile (\<lambda>y. \<not> Less x y) h"

definition heap_Min :: "Heap \<Rightarrow> searchCandidate option" where
  "heap_Min h = (case h of [] \<Rightarrow> None | x # _ \<Rightarrow> Some x)"

definition heap_Max :: "Heap \<Rightarrow> searchCandidate option" where
  "heap_Max h = (if h = [] then None else Some (last h))"

definition heap_PopLast :: "Heap \<Rightarrow> Heap" where
  "heap_PopLast h = butlast h"

text \<open>
  The body of the loop over the sorted neighbor keys of \<open>current\<close>. The heaps are never
  empty where \<open>Min\<close> and \<open>Max\<close> are read; the model panics there if they were.
\<close>

fun search_neighbors ::
  "int \<Rightarrow> int \<Rightarrow> Vector \<Rightarrow> distfn \<Rightarrow> 'k mem \<Rightarrow> nat \<Rightarrow> 'k list \<Rightarrow> Heap \<Rightarrow> Heap \<Rightarrow> 'k set \<Rightarrow> bool
     \<Rightarrow> (error + Heap \<times> Heap \<times> 'k set \<times> bool) exec" where
  "search_neighbors k efSearch target distance s current [] candidates result visited improved =
     Done (Inr (candidates, result, visited, improved))"
| "search_neighbors k efSearch target distance s current (neighborID # ids) candidates result
       visited improved =
     (if neighborID \<in> visited
      then search_neighbors k efSearch target distance s current ids candidates result visited
             improved
      else
        (case map_of (neighbors (objs s current)) neighborID of
           None \<Rightarrow> Panic
         | Some neighbor \<Rightarrow>
            (case distance (Value (objs s neighbor)) target of
               Inl err \<Rightarrow> Done (Inl err)
             | Inr d \<Rightarrow>
                (case (heap_Min result, heap_Max result) of
                   (Some mn, Some mx) \<Rightarrow>
                     (let c = \<lparr>node = neighbor, dist_to = d\<rparr>;
                          improved' = (improved \<or> f32_gt (dist_to mn) d);
                          result' =
                            (if int (length result) < k then heap_Push c result
                             else if f32_gt (dist_to mx) d then heap_Push c (heap_PopLast result)
                             else result);
                          candidates' = heap_Push c candidates;
                          candidates'' =
                            (if int (length candidates') > efSearch then heap_PopLast candidates'
                             else candidates')
                      in search_neighbors k efSearch target distance s current ids candidates''
                           result' (insert neighborID visited) improved')
                 | _ \<Rightarrow> Panic))))"

text \<open>The loop \<open>for candidates.Len() > 0\<close>; the bound counts its iterations.\<close>

fun search_loop ::
  "nat \<Rightarrow> int \<Rightarrow> int \<Rightarrow> Vector \<Rightarrow> distfn \<Rightarrow> 'k::linorder mem \<Rightarrow> Heap \<Rightarrow> Heap \<Rightarrow> 'k set
     \<Rightarrow> (error + Heap) exec" where
  "search_loop fuel k efSearch target distance s [] result visited = Done (Inr result)"
| "search_loop 0 k efSearch target distance s (c # cs) result visited = OutOfFuel"
| "search_loop (Suc fuel) k efSearch target distance s (c # cs) result visited =
     (case search_neighbors k efSearch target distance s (node c)
             (m_keys (neighbors (objs s (node c)))) cs result visited False of
        Done (Inl err) \<Rightarrow> Done (Inl err)
      | Done (Inr (candidates, result', visited', improved)) \<Rightarrow>
          if \<not> improved \<and> int (length result') \<ge> k then Done (Inr result')
          else search_loop fuel k efSearch target distance s candidates result' visited'
      | Panic \<Rightarrow> Panic
      | OutOfFuel \<Rightarrow> OutOfFuel)"

definition search ::
  "nat \<Rightarrow> nat option \<Rightarrow> int \<Rightarrow> int \<Rightarrow> Vector \<Rightarrow> distfn \<Rightarrow> 'k::linorder mem \<Rightarrow> (error + Heap) exec" where
  "search fuel n k efSearch target distance s =
     (case n of
        None \<Rightarrow> Done (Inl NodeNil)
      | Some a \<Rightarrow>
         (case distance (Value (objs s a)) target of
            Inl err \<Rightarrow> Done (Inl err)
          | Inr d \<Rightarrow>
             (let candidates = heap_Push \<lparr>node = a, dist_to = d\<rparr> []
              in case heap_Min candidates of
                   None \<Rightarrow> Panic
                 | Some mn \<Rightarrow>
                     search_loop fuel k efSearch target distance s candidates (heap_Push mn [])
                       {Key (objs s a)})))"

section \<open>Layers and the graph\<close>

record 'k layer =
  nodes :: "('k \<times> nat) list"

text \<open>\<open>entry\<close> returns the first node a \<open>range\<close> over the layer's map yields.\<close>

definition entry :: "'k::linorder env \<Rightarrow> 'k mem \<Rightarrow> 'k layer \<Rightarrow> nat option \<times> 'k mem" where
  "entry ev s l =
     (case ranged ev s (nodes l) of [] \<Rightarrow> (None, tock s) | (k, a) # _ \<Rightarrow> (Some a, tock s))"

definition size_layer :: "'k layer \<Rightarrow> nat" where
  "size_layer l = m_len (nodes l)"

text \<open>
  The graph. \<open>Rng\<close> is the stream of values \<open>Rng.Float64()\<close> returns and \<open>rng_pos\<close>
  the number of draws made; \<open>Distance\<close> may be \<open>nil\<close>; \<open>store\<close> holds the layer
  nodes the pointers of all layers refer to.
\<close>

record 'k Graph =
  Distance :: "distfn option"
  Rng :: "nat \<Rightarrow> real"
  rng_pos :: nat
  M :: int
  Ml :: f64
  EfSearch :: int
  EfConstruction :: int
  layers :: "'k layer list"
  store :: "'k mem"

text \<open>
  An \<open>int\<close> has 64 bits; \<open>wrap_int\<close> is the value an \<open>int\<close> operation with the exact
  result \<open>x\<close> yields. Only the addition in \<open>maxLevel\<close> can leave the range (the
  conversion of an infinite or huge quotient gives the least or the greatest \<open>int\<close>,
  depending on the processor); elsewhere the model computes with unbounded integers.
\<close>

definition wrap_int :: "int \<Rightarrow> int" where
  "wrap_int x = (x + 2 ^ 63) mod 2 ^ 64 - 2 ^ 63"

definition maxLevel :: "'k env \<Rightarrow> f64 \<Rightarrow> nat \<Rightarrow> error + int" where
  "maxLevel ev ml numNodes =
     (if ml = Fin 0 then Inl MlZero
      else if numNodes = 0 then Inr 1
      else Inr (wrap_int (round_log ev ml numNodes + 1)))"

text \<open>
  The loop \<open>for level := 0; level < max; level++\<close> of \<open>randomLevel\<close>. A draw of
  \<open>Rng.Float64()\<close> is a finite number.
\<close>

function level_loop :: "(nat \<Rightarrow> real) \<Rightarrow> f64 \<Rightarrow> int \<Rightarrow> int \<Rightarrow> nat \<Rightarrow> int \<times> nat" where
  "level_loop rng ml mx level pos =
     (if level < mx
      then (if f32_gt (Fin (rng pos)) ml then (level, Suc pos)
            else level_loop rng ml mx (level + 1) (Suc pos))
      else (mx, pos))"
  by pat_completeness auto
termination
  by (relation "measure (\<lambda>(rng, ml, mx, level, pos). nat (mx - level))") auto

declare level_loop.simps [simp del]

definition randomLevel :: "'k env \<Rightarrow> 'k Graph \<Rightarrow> 'k Graph \<times> (error + int)" where
  "randomLevel ev h =
     (if length (layers h) > 0
      then (if Ml h = Fin 0 then (h, Inl MlZero)
            else (case maxLevel ev (Ml h) (size_layer (layers h ! 0)) of
                    Inl err \<Rightarrow> (h, Inl err)
                  | Inr mx \<Rightarrow>
                      (let (level, pos) = level_loop (Rng h) (Ml h) mx 0 (rng_pos h)
                       in (h\<lparr>rng_pos := pos\<rparr>, Inr level))))
      else (let (level, pos) = level_loop (Rng h) (Ml h) 1 0 (rng_pos h)
            in (h\<lparr>rng_pos := pos\<rparr>, Inr level)))"

text \<open>\<open>Dims\<close> dereferences the entry of the base layer, which is nil for an empty layer.\<close>

definition Dims :: "'k::linorder env \<Rightarrow> 'k Graph \<Rightarrow> ('k Graph \<times> nat) exec" where
  "Dims ev g =
     (if length (layers g) = 0 then Done (g, 0)
      else (case entry ev (store g) (layers g ! 0) of
              (None, s) \<Rightarrow> Panic
            | (Some a, s) \<Rightarrow> Done (g\<lparr>store := s\<rparr>, length (Value (objs s a)))))"

definition assertDims :: "'k::linorder env \<Rightarrow> 'k Graph \<Rightarrow> Vector \<Rightarrow> ('k Graph \<times> error option) exec" where
  "assertDims ev g n =
     (if length (layers g) = 0 then Done (g, None)
      else (case Dims ev g of
              Done (g', dims) \<Rightarrow>
                if dims \<noteq> length n then Done (g', Some (DimMismatch dims (length n)))
                else Done (g', None)
            | Panic \<Rightarrow> Panic
            | OutOfFuel \<Rightarrow> OutOfFuel))"

definition Len :: "'k Graph \<Rightarrow> nat" where
  "Len h = (if length (layers h) = 0 then 0 else size_layer (layers h ! 0))"

definition Lookup :: "'k Graph \<Rightarrow> 'k \<Rightarrow> Vector option" where
  "Lookup h key =
     (if length (layers h) = 0 then None
      else (case map_of (nodes (layers h ! 0)) key of
              None \<Rightarrow> None
            | Some a \<Rightarrow> Some (Value (objs (store h) a))))"

section \<open>Add\<close>

text \<open>\<open>for insertLevel >= len(g.layers) { g.layers = append(g.layers, &layer[K]{}) }\<close>\<close>

function grow_layers :: "int \<Rightarrow> 'k layer list \<Rightarrow> 'k layer list" where
  "grow_layers insertLevel ls =
     (if insertLevel \<ge> int (length ls) then grow_layers insertLevel (ls @ [\<lparr>nodes = []\<rparr>])
      else ls)"
  by pat_completeness auto
termination
  by (relation "measure (\<lambda>(insertLevel, ls). nat (insertLevel + 1 - int (length ls)))") auto

declare grow_layers.simps [simp del]

text \<open>\<open>&layerNode[K]{Node: Node[K]{Key: key, Value: vec}}\<close>: a fresh object.\<close>

definition new_layerNode :: "'k \<Rightarrow> Vector \<Rightarrow> 'k mem \<Rightarrow> nat \<times> 'k mem" where
  "new_layerNode key vec s =
     (next_addr s,
      s\<lparr>objs := (objs s)(next_addr s := \<lparr>Key = key, Value = vec, neighbors = []\<rparr>),
        next_addr := Suc (next_addr s)\<rparr>)"

text \<open>
  The loop over the neighborhood that installs the edges. The error results of both
  \<open>addNeighbor\<close> calls are discarded by the caller.
\<close>

fun link_neighborhood ::
  "nat \<Rightarrow> 'k::linorder env \<Rightarrow> nat \<Rightarrow> int \<Rightarrow> distfn \<Rightarrow> Heap \<Rightarrow> 'k mem \<Rightarrow> 'k mem exec" where
  "link_neighborhood fuel ev newNode m distance [] s = Done s"
| "link_neighborhood fuel ev newNode m distance (c # cs) s =
     (case addNeighbor fuel ev (node c) newNode m distance s of
        Done (s1, _) \<Rightarrow>
          (case addNeighbor fuel ev newNode (node c) m distance s1 of
             Done (s2, _) \<Rightarrow> link_neighborhood fuel ev newNode m distance cs s2
           | Panic \<Rightarrow> Panic
           | OutOfFuel \<Rightarrow> OutOfFuel)
      | Panic \<Rightarrow> Panic
      | OutOfFuel \<Rightarrow> OutOfFuel)"

text \<open>The block guarded by \<open>insertLevel >= i\<close>, on layer \<open>i\<close>.\<close>

definition insert_node ::
  "nat \<Rightarrow> 'k::linorder env \<Rightarrow> 'k \<Rightarrow> nat \<Rightarrow> nat \<Rightarrow> distfn \<Rightarrow> Heap \<Rightarrow> bool \<Rightarrow> 'k Graph
     \<Rightarrow> ('k Graph \<times> bool) exec" where
  "insert_node fuel ev key newNode i distance neighborhood wasUpdated g =
     (let l = layers g ! i;
          isolated =
            (case map_of (nodes l) key of
               Some old \<Rightarrow>
                 (case isolate fuel ev old (M g) (store g) of
                    Done s \<Rightarrow> Done (AList.delete key (nodes l), s, True)
                  | Panic \<Rightarrow> Panic
                  | OutOfFuel \<Rightarrow> OutOfFuel)
             | None \<Rightarrow> Done (nodes l, store g, wasUpdated))
      in case isolated of
           Done (ns, s, wasUpdated') \<Rightarrow>
             (case link_neighborhood fuel ev newNode (M g) distance neighborhood s of
                Done s' \<Rightarrow>
                  Done (g\<lparr>layers := (layers g)[i := \<lparr>nodes = AList.update key newNode ns\<rparr>],
                          store := s'\<rparr>, wasUpdated')
              | Panic \<Rightarrow> Panic
              | OutOfFuel \<Rightarrow> OutOfFuel)
         | Panic \<Rightarrow> Panic
         | OutOfFuel \<Rightarrow> OutOfFuel)"

text \<open>
  The loop \<open>for i := len(g.layers) - 1; i >= 0; i--\<close>; the fourth argument is \<open>i + 1\<close>.
  The result carries \<open>wasUpdated\<close> and the error the loop returned with, if any.
\<close>

fun add_layers ::
  "nat \<Rightarrow> 'k::linorder env \<Rightarrow> 'k \<Rightarrow> Vector \<Rightarrow> int \<Rightarrow> nat \<Rightarrow> 'k option \<Rightarrow> bool \<Rightarrow> 'k Graph
     \<Rightarrow> ('k Graph \<times> bool \<times> error option) exec" where
  "add_layers fuel ev key vec insertLevel 0 elevator wasUpdated g = Done (g, wasUpdated, None)"
| "add_layers fuel ev key vec insertLevel (Suc i) elevator wasUpdated g =
     (let l = layers g ! i;
          (newNode, s0) = new_layerNode key vec (store g);
          (e1, s1) = entry ev s0 l
      in case e1 of
           None \<Rightarrow>
             add_layers fuel ev key vec insertLevel i elevator wasUpdated
               (g\<lparr>layers := (layers g)[i := \<lparr>nodes = [(key, newNode)]\<rparr>], store := s1\<rparr>)
         | Some _ \<Rightarrow>
            (let (e2, s2) = entry ev s1 l;
                 searchPoint = (case elevator of None \<Rightarrow> e2 | Some k \<Rightarrow> map_of (nodes l) k);
                 g2 = g\<lparr>store := s2\<rparr>
             in case Distance g of
                  None \<Rightarrow> Done (g2, wasUpdated, Some DistanceUnset)
                | Some distance \<Rightarrow>
                   (case search fuel searchPoint (M g) (EfConstruction g) vec distance s2 of
                      Done (Inl err) \<Rightarrow> Done (g2, wasUpdated, Some err)
                    | Done (Inr []) \<Rightarrow> Done (g2, wasUpdated, Some EmptyNeighborhood)
                    | Done (Inr (c0 # cs)) \<Rightarrow>
                        (let elevator' = Some (Key (objs s2 (node c0)))
                         in if insertLevel \<ge> int i
                            then (case insert_node fuel ev key newNode i distance (c0 # cs)
                                         wasUpdated g2 of
                                    Done (g3, wasUpdated') \<Rightarrow>
                                      add_layers fuel ev key vec insertLevel i elevator'
                                        wasUpdated' g3
                                  | Panic \<Rightarrow> Panic
                                  | OutOfFuel \<Rightarrow> OutOfFuel)
                            else add_layers fuel ev key vec insertLevel i elevator' wasUpdated g2)
                    | Panic \<Rightarrow> Panic
                    | OutOfFuel \<Rightarrow> OutOfFuel)))"

text \<open>One iteration of the loop over \<open>nodes\<close> in \<open>Add\<close>. The result of \<open>assertDims\<close> is dropped.\<close>

definition Add_node ::
  "nat \<Rightarrow> 'k::linorder env \<Rightarrow> 'k Graph \<Rightarrow> 'k Node \<Rightarrow> ('k Graph \<times> error option) exec" where
  "Add_node fuel ev g nd =
     (case assertDims ev g (Value nd) of
        Panic \<Rightarrow> Panic
      | OutOfFuel \<Rightarrow> OutOfFuel
      | Done (g1, _) \<Rightarrow>
         (case randomLevel ev g1 of
            (g2, Inl err) \<Rightarrow> Done (g2, Some err)
          | (g2, Inr insertLevel) \<Rightarrow>
             (let g3 = g2\<lparr>layers := grow_layers insertLevel (layers g2)\<rparr>
              in if insertLevel < 0 then Done (g3, Some InvalidLevel)
                 else
                  (let preLen = Len g3
                   in case add_layers fuel ev (Key nd) (Value nd) insertLevel (length (layers g3))
                             None False g3 of
                        Done (g4, wasUpdated, Some err) \<Rightarrow> Done (g4, Some err)
                      | Done (g4, wasUpdated, None) \<Rightarrow>
                          if wasUpdated
                          then (if Len g4 \<noteq> preLen then Done (g4, Some NodeNotUpdated)
                                else Done (g4, None))
                          else (if Len g4 \<noteq> preLen + 1 then Done (g4, Some NodeNotAdded)
                                else Done (g4, None))
                      | Panic \<Rightarrow> Panic
                      | OutOfFuel \<Rightarrow> OutOfFuel))))"

fun Add :: "nat \<Rightarrow> 'k::linorder env \<Rightarrow> 'k Graph \<Rightarrow> 'k Node list \<Rightarrow> ('k Graph \<times> error option) exec" where
  "Add fuel ev g [] = Done (g, None)"
| "Add fuel ev g (nd # nds) =
     (case Add_node fuel ev g nd of
        Done (g', None) \<Rightarrow> Add fuel ev g' nds
      | Done (g', Some err) \<Rightarrow> Done (g', Some err)
      | Panic \<Rightarrow> Panic
      | OutOfFuel \<Rightarrow> OutOfFuel)"

section \<open>Delete\<close>

text \<open>
  The loop over the layers in \<open>DeleteWithLock\<close>: the layers still to visit, the
  \<open>deleted\<close> flag and the layers already visited.
\<close>

fun delete_layers ::
  "nat \<Rightarrow> 'k::linorder env \<Rightarrow> 'k \<Rightarrow> int \<Rightarrow> 'k layer list \<Rightarrow> bool \<Rightarrow> 'k layer list \<Rightarrow> 'k mem
     \<Rightarrow> ('k layer list \<times> 'k mem \<times> bool) exec" where
  "delete_layers fuel ev key m [] deleted done s = Done (done, s, deleted)"
| "delete_layers fuel ev key m (l # ls) deleted done s =
     (case map_of (nodes l) key of
        None \<Rightarrow> delete_layers fuel ev key m ls deleted (done @ [l]) s
      | Some nd \<Rightarrow>
         (case isolate fuel ev nd m s of
            Done s' \<Rightarrow>
              delete_layers fuel ev key m ls True
                (done @ [\<lparr>nodes = AList.delete key (nodes l)\<rparr>]) s'
          | Panic \<Rightarrow> Panic
          | OutOfFuel \<Rightarrow> OutOfFuel))"

definition DeleteWithLock ::
  "nat \<Rightarrow> 'k::linorder env \<Rightarrow> 'k Graph \<Rightarrow> 'k \<Rightarrow> ('k Graph \<times> bool) exec" where
  "DeleteWithLock fuel ev h key =
     (if length (layers h) = 0 then Done (h, False)
      else (case delete_layers fuel ev key (M h) (layers h) False [] (store h) of
              Done (ls, s, deleted) \<Rightarrow> Done (h\<lparr>layers := ls, store := s\<rparr>, deleted)
            | Panic \<Rightarrow> Panic
            | OutOfFuel \<Rightarrow> OutOfFuel))"

definition Delete :: "nat \<Rightarrow> 'k::linorder env \<Rightarrow> 'k Graph \<Rightarrow> 'k \<Rightarrow> ('k Graph \<times> bool) exec" where
  "Delete fuel ev h key = DeleteWithLock fuel ev h key"

section \<open>Construction and concrete inputs\<close>

definition empty_mem :: "'k::zero mem" where
  "empty_mem =
     \<lparr>objs = (\<lambda>a. \<lparr>Key = 0, Value = [], neighbors = []\<rparr>), next_addr = 0, tick = 0\<rparr>"

text \<open>\<open>NewGraph\<close>, with the random source given by the stream of its draws.\<close>

definition NewGraph :: "'k::zero env \<Rightarrow> (nat \<Rightarrow> real) \<Rightarrow> 'k Graph" where
  "NewGraph ev rng =
     \<lparr>Distance = Some (CosineDistance ev), Rng = rng, rng_pos = 0, M = 16, Ml = Fin (1 / 4),
      EfSearch = 20, EfConstruction = 40, layers = [], store = empty_mem\<rparr>"

text \<open>
  Inputs for the concrete runs below: a distance function that never fails, one that
  fails whenever its second argument is the vector \<open>[1]\<close>, and a random source
  whose every draw is \<open>1/2\<close>. In the environment \<open>sorted_env\<close> a \<open>range\<close> walks
  the keys in ascending order and skips the entries created during the walk;
  \<open>round_log_quarter\<close> holds the values of the \<open>float64\<close> expression for
  \<open>Ml = 0.25\<close> and up to seven nodes, the only arguments the runs meet: the
  quotient is 0 for one node and lies between 0.5 and 1.41 for two to seven nodes.
\<close>

definition const_distance :: distfn where
  "const_distance a b = Inr (Fin 0)"

definition failing_distance :: distfn where
  "failing_distance a b = (if b = [Fin 1] then Inl (DistError ''fail'') else Inr (Fin 0))"

definition round_log_quarter :: "f64 \<Rightarrow> nat \<Rightarrow> int" where
  "round_log_quarter ml n = (if n \<le> 1 then 0 else 1)"

definition sorted_env :: "int env" where
  "sorted_env =
     \<lparr>CosineDistance = const_distance, range_order = (\<lambda>t ks. ks),
      range_skip = (\<lambda>t ks. True), round_log = round_log_quarter\<rparr>"

text \<open>
  A second distance function, which fails whenever its first argument is the vector
  \<open>[3]\<close>, and a second environment, in which a \<open>range\<close> walks the keys in
  descending order and produces the entries created during the walk.
\<close>

definition failing_on_new :: distfn where
  "failing_on_new a b = (if a = [Fin 3] then Inl (DistError ''fail'') else Inr (Fin 0))"

definition rev_env :: "int env" where
  "rev_env =
     \<lparr>CosineDistance = const_distance, range_order = (\<lambda>t ks. rev ks),
      range_skip = (\<lambda>t ks. False), round_log = round_log_quarter\<rparr>"

definition half_rng :: "nat \<Rightarrow> real" where
  "half_rng i = 1 / 2"

definition three_nodes :: "int Node list" where
  "three_nodes =
     [\<lparr>Key = 1, Value = [Fin 1]\<rparr>, \<lparr>Key = 2, Value = [Fin 2]\<rparr>, \<lparr>Key = 3, Value = [Fin 3]\<rparr>]"

section \<open>The invariants of the spec as predicates\<close>

text \<open>
  Every edge is bidirectional and stays inside its layer: for each node of a layer
  and each entry of its neighbor map, the referenced node is the layer's node of
  that key and has the first node's key in its own neighbor map.
\<close>

definition edges_ok :: "'k Graph \<Rightarrow> bool" where
  "edges_ok g =
     list_all (\<lambda>l. list_all (\<lambda>(k, a).
         list_all (\<lambda>(k', b).
             map_of (nodes l) k' = Some b \<and>
             map_of (neighbors (objs (store g) b)) (Key (objs (store g) a)) \<noteq> None)
           (neighbors (objs (store g) a)))
       (nodes l)) (layers g)"

text \<open>Every node of every layer has at most \<open>M\<close> neighbors.\<close>

definition neighbors_bounded :: "'k Graph \<Rightarrow> bool" where
  "neighbors_bounded g =
     list_all (\<lambda>l. list_all (\<lambda>(k, a). int (m_len (neighbors (objs (store g) a))) \<le> M g)
       (nodes l)) (layers g)"


text \<open>
  \<open>was_update g insertLevel key\<close>: the insert of \<open>key\<close> is an update, as \<open>Add\<close>
  decides it: one of the layers that the insert reaches, those of index at most
  \<open>insertLevel\<close>, holds the key.
\<close>

definition was_update :: "'k Graph \<Rightarrow> int \<Rightarrow> 'k \<Rightarrow> bool" where
  "was_update g insertLevel key =
     list_ex (\<lambda>(i, l). int i \<le> insertLevel \<and> map_of (nodes l) key \<noteq> None)
       (enumerate 0 (layers g))"

section \<open>The two functions without the recursion bound\<close>

text \<open>
  \<open>replenish\<close> calls \<open>addNeighbor\<close> only while the receiver has fewer than \<open>m\<close>
  neighbors, and such a call ends after the insertion. \<open>link\<close> is that insertion;
  \<open>replenish_total\<close> and \<open>addNeighbor_total\<close> are the bodies with it in place of the
  nested call. The theorems show that they are what \<open>replenish\<close> and \<open>addNeighbor\<close>
  compute from bounds 2 and 3 on. \<open>deg\<close> is \<open>len(n.neighbors)\<close>.
\<close>

definition link :: "nat \<Rightarrow> nat \<Rightarrow> 'k mem \<Rightarrow> 'k mem" where
  "link n newNode s =
     set_neighbors n (AList.update (Key (objs s newNode)) newNode (neighbors (objs s n))) s"

definition addNeighbor_fits ::
  "nat \<Rightarrow> nat \<Rightarrow> int \<Rightarrow> distfn \<Rightarrow> 'k mem \<Rightarrow> ('k mem \<times> error option) exec" where
  "addNeighbor_fits n newNode m d s = Done (link n newNode s, None)"

definition replenish_total :: "'k::linorder env \<Rightarrow> nat \<Rightarrow> int \<Rightarrow> 'k mem \<Rightarrow> 'k mem exec" where
  "replenish_total ev = replenish_body addNeighbor_fits ev"

definition addNeighbor_total ::
  "'k::linorder env \<Rightarrow> nat \<Rightarrow> nat \<Rightarrow> int \<Rightarrow> distfn \<Rightarrow> 'k mem \<Rightarrow> ('k mem \<times> error option) exec" where
  "addNeighbor_total ev = addNeighbor_body (replenish_total ev) ev"

definition deg :: "'k mem \<Rightarrow> nat \<Rightarrow> nat" where
  "deg s a = m_len (neighbors (objs s a))"

section \<open>The calls of isolate in Delete\<close>

text \<open>
  What \<open>Delete\<close> does to the layer nodes: for each layer, in order, that holds the
  key, \<open>isolate\<close> runs on the detached node.
\<close>

fun isolate_detached ::
  "nat \<Rightarrow> 'k::linorder env \<Rightarrow> 'k \<Rightarrow> int \<Rightarrow> 'k layer list \<Rightarrow> 'k mem \<Rightarrow> 'k mem exec" where
  "isolate_detached fuel ev key m [] s = Done s"
| "isolate_detached fuel ev key m (l # ls) s =
     (case map_of (nodes l) key of
        None \<Rightarrow> isolate_detached fuel ev key m ls s
      | Some nd \<Rightarrow>
         (case isolate fuel ev nd m s of
            Done s' \<Rightarrow> isolate_detached fuel ev key m ls s'
          | Panic \<Rightarrow> Panic
          | OutOfFuel \<Rightarrow> OutOfFuel))"


text \<open>A graph of one layer with two nodes that are each other's neighbor.\<close>

definition linked_pair :: "int Graph" where
  "linked_pair =
     \<lparr>Distance = Some const_distance, Rng = half_rng, rng_pos = 0, M = 16, Ml = Fin (1 / 4),
      EfSearch = 20, EfConstruction = 40,
      layers = [\<lparr>nodes = [(1, 0), (2, 1)]\<rparr>],
      store = \<lparr>objs = (\<lambda>a. if a = 0 then \<lparr>Key = 1, Value = [Fin 1], neighbors = [(2, 1)]\<rparr>
                           else \<lparr>Key = 2, Value = [Fin 2], neighbors = [(1, 0)]\<rparr>),
               next_addr = 2, tick = 0\<rparr>\<rparr>"

text \<open>
  A graph of two layers whose upper layer holds the keys 1 and 5 and whose base
  layer holds key 1 only, as an \<open>Add\<close> of key 5 leaves it that returned with an
  error after the upper layer. Every draw of its random source is 0.
\<close>

definition upper_graph :: "int Graph" where
  "upper_graph =
     \<lparr>Distance = Some const_distance, Rng = (\<lambda>i. 0), rng_pos = 0, M = 16, Ml = Fin (1 / 4),
      EfSearch = 20, EfConstruction = 40,
      layers = [\<lparr>nodes = [(1, 0)]\<rparr>, \<lparr>nodes = [(1, 1), (5, 2)]\<rparr>],
      store = \<lparr>objs = (\<lambda>a. if a = 2 then \<lparr>Key = 5, Value = [Fin 5], neighbors = []\<rparr>
                           else \<lparr>Key = 1, Value = [Fin 1], neighbors = []\<rparr>),
               next_addr = 3, tick = 0\<rparr>\<rparr>"

section \<open>The worst neighbor as the spec words it\<close>

text \<open>
  The candidates for eviction are the pairs of a distance and a node, in the order
  examined; \<open>measured\<close> computes them, up to the first call of the distance
  function that fails. \<open>spec_worst\<close> selects as the spec says: the first candidate
  examined is tentatively worst (the current worst is still the sentinel, \<open>None\<close>);
  a later candidate replaces the current worst iff its distance is strictly greater.
\<close>

fun measured ::
  "distfn \<Rightarrow> Vector \<Rightarrow> (nat \<Rightarrow> 'k layerNode) \<Rightarrow> ('k \<times> nat) list \<Rightarrow> error + (f32 \<times> nat) list" where
  "measured dist_fn v ob [] = Inr []"
| "measured dist_fn v ob ((k, a) # es) =
     (case dist_fn (Value (ob a)) v of
        Inl err \<Rightarrow> Inl err
      | Inr d \<Rightarrow>
          (case measured dist_fn v ob es of
             Inl err \<Rightarrow> Inl err
           | Inr cs \<Rightarrow> Inr ((d, a) # cs)))"

fun spec_worst :: "(f32 \<times> nat) option \<Rightarrow> (f32 \<times> nat) list \<Rightarrow> (f32 \<times> nat) option" where
  "spec_worst cur [] = cur"
| "spec_worst None (c # cs) = spec_worst (Some c) cs"
| "spec_worst (Some w) (c # cs) =
     spec_worst (Some (if f32_gt (fst c) (fst w) then c else w)) cs"

text \<open>
  A distance function with distinct values, the distance of two numbers, and a store
  in which node 0 (key 1, at 0) has the neighbors 1 and 2 (keys 2 and 3, at 5 and 9);
  node 3 (key 4, at 7) has none.
\<close>

definition abs_distance :: distfn where
  "abs_distance a b =
     (case (a, b) of ([Fin x], [Fin y]) \<Rightarrow> Inr (Fin \<bar>x - y\<bar>) | _ \<Rightarrow> Inr NaN)"

definition fan_mem :: "int mem" where
  "fan_mem =
     \<lparr>objs = (\<lambda>a. if a = 0 then \<lparr>Key = 1, Value = [Fin 0], neighbors = [(2, 1), (3, 2)]\<rparr>
                  else if a = 1 then \<lparr>Key = 2, Value = [Fin 5], neighbors = [(1, 0)]\<rparr>
                  else if a = 2 then \<lparr>Key = 3, Value = [Fin 9], neighbors = [(1, 0)]\<rparr>
                  else \<lparr>Key = 4, Value = [Fin 7], neighbors = []\<rparr>),
      next_addr = 4, tick = 0\<rparr>"

section \<open>Frames\<close>

text \<open>
  \<open>touched w s s'\<close>: from \<open>s\<close> to \<open>s'\<close> nothing changed but, possibly, the neighbor map
  of the object at \<open>w\<close> (and the count of \<open>range\<close> statements).
\<close>

definition touched :: "nat \<Rightarrow> 'k mem \<Rightarrow> 'k mem \<Rightarrow> bool" where
  "touched w s s' \<longleftrightarrow>
     (\<forall>a. a \<noteq> w \<longrightarrow> objs s' a = objs s a) \<and>
     Key (objs s' w) = Key (objs s w) \<and> Value (objs s' w) = Value (objs s w) \<and>
     next_addr s' = next_addr s"

text \<open>\<open>same_nodes s s'\<close>: every object has kept its key and vector, and none was allocated.\<close>

definition same_nodes :: "'k mem \<Rightarrow> 'k mem \<Rightarrow> bool" where
  "same_nodes s s' \<longleftrightarrow>
     (\<forall>a. Key (objs s' a) = Key (objs s a) \<and> Value (objs s' a) = Value (objs s a)) \<and>
     next_addr s' = next_addr s"

text \<open>The node map of the base layer; empty when the graph has no layers.\<close>

definition base_nodes :: "'k Graph \<Rightarrow> ('k \<times> nat) list" where
  "base_nodes g = (if layers g = [] then [] else nodes (layers g ! 0))"

section \<open>Invariants of the store\<close>

text \<open>
  \<open>keyed s\<close>: every entry of every neighbor map is stored under the key of the node
  it refers to, and refers to an allocated object. \<open>bounded m s\<close>: no object has
  more than \<open>m\<close> neighbors.
\<close>

definition keyed :: "'k mem \<Rightarrow> bool" where
  "keyed s \<longleftrightarrow>
     (\<forall>a k b. map_of (neighbors (objs s a)) k = Some b \<longrightarrow>
        Key (objs s b) = k \<and> b < next_addr s)"

definition bounded :: "int \<Rightarrow> 'k mem \<Rightarrow> bool" where
  "bounded m s \<longleftrightarrow> (\<forall>a. int (deg s a) \<le> m)"

text \<open>A distance function that never returns an error.\<close>

definition infallible :: "distfn \<Rightarrow> bool" where
  "infallible d \<longleftrightarrow> (\<forall>a b. \<exists>x. d a b = Inr x)"

text \<open>\<open>allocated s h\<close>: every candidate of the heap refers to an allocated object.\<close>

definition allocated :: "'k mem \<Rightarrow> Heap \<Rightarrow> bool" where
  "allocated s h \<longleftrightarrow> (\<forall>c \<in> set h. node c < next_addr s)"

section \<open>Invariants of the graph\<close>

text \<open>
  \<open>wf_graph g\<close>: the store is keyed and bounded by \<open>M\<close>, the layers refer to
  allocated objects, \<open>M\<close> is not negative and the distance function, if set, never
  fails.
\<close>

definition layers_allocated :: "'k mem \<Rightarrow> 'k layer list \<Rightarrow> bool" where
  "layers_allocated s ls \<longleftrightarrow>
     (\<forall>l \<in> set ls. \<forall>k b. map_of (nodes l) k = Some b \<longrightarrow> b < next_addr s)"

definition wf_graph :: "'k Graph \<Rightarrow> bool" where
  "wf_graph g \<longleftrightarrow>
     keyed (store g) \<and> bounded (M g) (store g) \<and> layers_allocated (store g) (layers g) \<and>
     0 \<le> M g \<and> (\<forall>d. Distance g = Some d \<longrightarrow> infallible d)"

section \<open>Reachable graphs\<close>

text \<open>
  The graphs reachable from \<open>g0\<close> by completed calls of \<open>Add\<close> and \<open>Delete\<close>: calls
  that return, with or without an error, under recursion bounds from which
  \<open>addNeighbor\<close> and \<open>replenish\<close> always return.
\<close>

inductive reachable :: "'k::linorder env \<Rightarrow> 'k Graph \<Rightarrow> 'k Graph \<Rightarrow> bool" for ev g0 where
  start: "reachable ev g0 g0"
| after_Add:
    "reachable ev g0 g \<Longrightarrow> 3 \<le> fuel \<Longrightarrow> Add fuel ev g nds = Done (g', e) \<Longrightarrow> reachable ev g0 g'"
| after_Delete:
    "reachable ev g0 g \<Longrightarrow> 2 \<le> fuel \<Longrightarrow> Delete fuel ev g key = Done (g', deleted) \<Longrightarrow>
     reachable ev g0 g'"

section \<open>Theorems\<close>

text \<open>
  C10: \<open>MakeNodes keys vecs\<close> returns an error exactly when the two lengths differ;
  otherwise it returns a list as long as \<open>keys\<close> whose i-th node has key \<open>keys ! i\<close>
  and value \<open>vecs ! i\<close>.
\<close>

theorem MakeNodes_spec:
  "((\<exists>e. MakeNodes keys vecs = Inl e) \<longleftrightarrow> length keys \<noteq> length vecs) \<and>
   (length keys = length vecs \<longrightarrow>
      (\<exists>ns. MakeNodes keys vecs = Inr ns \<and> length ns = length keys \<and>
         (\<forall>i < length keys. Key (ns ! i) = keys ! i \<and> Value (ns ! i) = vecs ! i)))"
  by (simp add: MakeNodes_def MakeNode_def)

theorem MakeNodes_spec_witness:
  "MakeNodes [1::nat, 2] [ [Fin 1], [Fin 2, Fin 3] ] =
     Inr [\<lparr>Key = 1, Value = [Fin 1]\<rparr>, \<lparr>Key = 2, Value = [Fin 2, Fin 3]\<rparr>] \<and>
   (\<exists>e. MakeNodes [1::nat] [] = Inl e)"
proof -
  have a: "length [1::nat] \<noteq> length ([] :: Vector list)" by simp
  from MakeNodes_spec [of "[1::nat]" "[]"] a
  have "\<exists>e. MakeNodes [1::nat] [] = Inl e" by blast
  moreover
  have b: "length [1::nat, 2] = length [ [Fin 1], [Fin 2, Fin 3] ]" by simp
  from MakeNodes_spec [of "[1::nat, 2]" "[ [Fin 1], [Fin 2, Fin 3] ]"] b
  obtain ns where ns: "MakeNodes [1::nat, 2] [ [Fin 1], [Fin 2, Fin 3] ] = Inr ns"
    by blast
  have "MakeNodes [1::nat, 2] [ [Fin 1], [Fin 2, Fin 3] ] =
     Inr [\<lparr>Key = 1, Value = [Fin 1]\<rparr>, \<lparr>Key = 2, Value = [Fin 2, Fin 3]\<rparr>]"
    by (simp add: MakeNodes_def MakeNode_def upt_rec)
  ultimately show ?thesis by simp
qed

subsection \<open>Concrete runs\<close>



lemmas run_defs =
  sorted_env_def const_distance_def failing_distance_def empty_mem_def NewGraph_def
  half_rng_def three_nodes_def
  Add_node_def assertDims_def Dims_def randomLevel_def maxLevel_def
  Len_def size_layer_def m_len_def m_keys_def entry_def ranged_def tock_def new_layerNode_def
  search_def heap_Push_def heap_Min_def heap_Max_def heap_PopLast_def Less_def
  insert_node_def isolate_def addNeighbor_def replenish_def addNeighbor_body_def
  replenish_body_def set_neighbors_def wrap_int_def round_log_quarter_def Let_def
  DeleteWithLock_def Delete_def Lookup_def numeral_2_eq_2 numeral_3_eq_3 level_loop.simps
  grow_layers.simps range_next_def replenish_outer.simps

text \<open>
  C1 (the code breaks it): after \<open>Add\<close> of the keys 1, 2, 3 into a new graph and
  \<open>Delete(3)\<close>, which returns true, the neighbor maps of the nodes 1 and 2 in the
  base layer still hold key 3, which the layer no longer contains: \<open>replenish\<close>,
  called by \<open>isolate\<close> on node 1, finds the detached node among the neighbors of
  node 2 and adds it back.
\<close>

theorem delete_leaves_dangling_edge:
  "(case Add 3 sorted_env (NewGraph sorted_env half_rng) three_nodes of
      Done (g, e) \<Rightarrow>
        e = None \<and> edges_ok g \<and>
        (case Delete 3 sorted_env g 3 of
           Done (g', deleted) \<Rightarrow>
             deleted \<and> \<not> edges_ok g' \<and>
             map_of (nodes (layers g' ! 0)) 3 = None \<and>
             (case map_of (nodes (layers g' ! 0)) 1 of
                Some a \<Rightarrow> map_of (neighbors (objs (store g') a)) 3 \<noteq> None
              | None \<Rightarrow> False)
         | _ \<Rightarrow> False)
    | _ \<Rightarrow> False)"
  by (simp add: run_defs edges_ok_def)

text \<open>
  C2 (the code breaks it): a graph holding one vector of three dimensions accepts a
  vector of two dimensions. \<open>assertDims\<close> reports the mismatch, \<open>Add\<close> drops its
  result, returns no error and the graph has two nodes.
\<close>

theorem add_ignores_dimension_mismatch:
  "(case Add 3 sorted_env (NewGraph sorted_env half_rng)
           [\<lparr>Key = 1, Value = [Fin 1, Fin 1, Fin 1]\<rparr>] of
      Done (g, e) \<Rightarrow>
        e = None \<and>
        (case assertDims sorted_env g [Fin 1, Fin 1] of
           Done (_, r) \<Rightarrow> r = Some (DimMismatch 3 2)
         | _ \<Rightarrow> False) \<and>
        (case Add 3 sorted_env g [\<lparr>Key = 2, Value = [Fin 1, Fin 1]\<rparr>] of
           Done (g', e') \<Rightarrow> e' = None \<and> Len g' = 2
         | _ \<Rightarrow> False)
    | _ \<Rightarrow> False)"
  by (simp add: run_defs)

text \<open>
  C3 (the code breaks it): with \<open>M = 1\<close> and a distance function that fails on the
  call \<open>addNeighbor\<close> makes for node 1 during the third insertion, \<open>Add\<close> returns
  no error and goes on installing edges; node 1 is left with two neighbors.
\<close>

theorem add_drops_addNeighbor_error:
  "failing_distance [Fin 3] [Fin 1] = Inl (DistError ''fail'') \<and>
   (case Add 3 sorted_env
           ((NewGraph sorted_env half_rng)\<lparr>Distance := Some failing_distance, M := 1\<rparr>)
           three_nodes of
      Done (g, e) \<Rightarrow>
        e = None \<and> Len g = 3 \<and>
        (case map_of (nodes (layers g ! 0)) 1 of
           Some a \<Rightarrow> m_len (neighbors (objs (store g) a)) = 2
         | None \<Rightarrow> False) \<and>
        (case map_of (nodes (layers g ! 0)) 3 of
           Some a \<Rightarrow> map_of (neighbors (objs (store g) a)) 1 \<noteq> None
         | None \<Rightarrow> False)
    | _ \<Rightarrow> False)"
  by (simp add: run_defs)

text \<open>
  C4 (the code breaks it): with \<open>M = 1\<close> and a distance function that fails
  whenever its first argument is the vector \<open>[3]\<close>, \<open>Add\<close> of the keys 1, 2, 3
  with the vectors \<open>[1]\<close>, \<open>[2]\<close>, \<open>[3]\<close> returns no error, and in the graph it
  leaves node 1 of the base layer has the two neighbors 2 and 3, more than \<open>M\<close>.
  \<open>addNeighbor\<close> on node 1 finds the map above \<open>M\<close>, gets the error of the
  distance function for the new neighbor and returns it before evicting; \<open>Add\<close>
  drops that error.
\<close>

theorem add_leaves_node_above_M:
  "(case Add 3 sorted_env
           ((NewGraph sorted_env half_rng)\<lparr>Distance := Some failing_on_new, M := 1\<rparr>)
           three_nodes of
      Done (g, e) \<Rightarrow>
        e = None \<and> M g = 1 \<and> \<not> neighbors_bounded g \<and>
        (case map_of (nodes (layers g ! 0)) 1 of
           Some a \<Rightarrow>
             map_of (neighbors (objs (store g) a)) 2 \<noteq> None \<and>
             map_of (neighbors (objs (store g) a)) 3 \<noteq> None
         | None \<Rightarrow> False)
    | _ \<Rightarrow> False)"
  by (simp add: run_defs neighbors_bounded_def failing_on_new_def)

text \<open>
  The same happens when \<open>range\<close> walks the maps in descending order: then it is
  node 2 that ends with two neighbors.
\<close>

lemma descending_order_above_M:
  "(case Add 3 rev_env
           ((NewGraph rev_env half_rng)\<lparr>Distance := Some failing_on_new, M := 1\<rparr>)
           three_nodes of
      Done (g, e) \<Rightarrow>
        e = None \<and> M g = 1 \<and> \<not> neighbors_bounded g \<and>
        (case map_of (nodes (layers g ! 0)) 2 of
           Some a \<Rightarrow>
             map_of (neighbors (objs (store g) a)) 1 \<noteq> None \<and>
             map_of (neighbors (objs (store g) a)) 3 \<noteq> None
         | None \<Rightarrow> False)
    | _ \<Rightarrow> False)"
  by (simp add: run_defs rev_env_def neighbors_bounded_def failing_on_new_def)

text \<open>
  C7 (the code breaks it): after \<open>Add\<close> of the keys 1, 2, 3 into a new graph,
  \<open>Delete(3)\<close> returns true, no layer holds key 3 and the number of layers is
  unchanged, but the detached node has not been isolated: its neighbors, the nodes
  1 and 2, still have it in their maps under key 3. \<open>isolate\<close> deletes the key from
  the map of node 1 and calls \<open>replenish\<close> on node 1, which finds the detached node
  in the map of node 2 and adds it back; then likewise for node 2.
\<close>

theorem delete_does_not_isolate:
  "(case Add 3 sorted_env (NewGraph sorted_env half_rng) three_nodes of
      Done (g, e) \<Rightarrow>
        e = None \<and>
        (case map_of (nodes (layers g ! 0)) 3 of
           Some detached \<Rightarrow>
             map_of (neighbors (objs (store g) detached)) 1 \<noteq> None \<and>
             map_of (neighbors (objs (store g) detached)) 2 \<noteq> None \<and>
             (case Delete 3 sorted_env g 3 of
                Done (g', deleted) \<Rightarrow>
                  deleted \<and> length (layers g') = length (layers g) \<and>
                  list_all (\<lambda>l. map_of (nodes l) 3 = None) (layers g') \<and>
                  (case (map_of (nodes (layers g' ! 0)) 1, map_of (nodes (layers g' ! 0)) 2) of
                     (Some a1, Some a2) \<Rightarrow>
                       map_of (neighbors (objs (store g') a1)) 3 = Some detached \<and>
                       map_of (neighbors (objs (store g') a2)) 3 = Some detached
                   | _ \<Rightarrow> False)
              | _ \<Rightarrow> False)
         | None \<Rightarrow> False)
    | _ \<Rightarrow> False)"
  by (simp add: run_defs)

text \<open>
  The same happens when \<open>range\<close> walks the maps in descending order and produces
  the entries created during a walk.
\<close>

lemma descending_order_keeps_edge:
  "(case Add 3 rev_env (NewGraph rev_env half_rng) three_nodes of
      Done (g, e) \<Rightarrow>
        e = None \<and> edges_ok g \<and>
        (case map_of (nodes (layers g ! 0)) 3 of
           Some detached \<Rightarrow>
             (case Delete 3 rev_env g 3 of
                Done (g', deleted) \<Rightarrow>
                  deleted \<and> \<not> edges_ok g' \<and>
                  list_all (\<lambda>l. map_of (nodes l) 3 = None) (layers g') \<and>
                  (case (map_of (nodes (layers g' ! 0)) 1, map_of (nodes (layers g' ! 0)) 2) of
                     (Some a1, Some a2) \<Rightarrow>
                       map_of (neighbors (objs (store g') a1)) 3 = Some detached \<and>
                       map_of (neighbors (objs (store g') a2)) 3 = Some detached
                   | _ \<Rightarrow> False)
              | _ \<Rightarrow> False)
         | None \<Rightarrow> False)
    | _ \<Rightarrow> False)"
  by (simp add: run_defs rev_env_def edges_ok_def)

subsection \<open>randomLevel\<close>





subsection \<open>The recursion of addNeighbor and replenish ends\<close>

lemma m_len_card: "m_len m = card (fst ` set m)"
  by (simp add: m_len_def length_remdups_card_conv)

lemma m_len_update_le: "m_len (AList.update k v m) \<le> Suc (m_len m)"
proof -
  have "fst ` set (AList.update k v m) = insert k (fst ` set m)"
    by (simp add: dom_update)
  then show ?thesis
    by (simp add: m_len_card card_insert_if)
qed

lemma m_len_delete_le: "m_len (AList.delete k m) \<le> m_len m"
proof -
  have "fst ` set (AList.delete k m) \<subseteq> fst ` set m"
    by (rule dom_delete_subset)
  then show ?thesis
    by (simp add: m_len_card card_mono)
qed

lemma deg_tock [simp]: "deg (tock s) a = deg s a"
  by (simp add: deg_def tock_def)

lemma addNeighbor_body_fits:
  assumes "int (deg s n) < m"
  shows "addNeighbor_body rep ev n c m d s = addNeighbor_fits n c m d s"
proof -
  have "m_len (AList.update (Key (objs s c)) c (neighbors (objs s n))) \<le> Suc (deg s n)"
    unfolding deg_def by (rule m_len_update_le)
  with assms have "int (m_len (AList.update (Key (objs s c)) c (neighbors (objs s n)))) \<le> m"
    by linarith
  then show ?thesis
    by (simp add: addNeighbor_body_def addNeighbor_fits_def link_def Let_def)
qed

lemma replenish_inner_fits:
  "int (deg s n) < m \<Longrightarrow>
   replenish_inner (addNeighbor_body rep ev) ev n m cs s = replenish_inner addNeighbor_fits ev n m cs s"
proof (induction cs arbitrary: s)
  case Nil
  show ?case by simp
next
  case (Cons c cs)
  obtain key cand where c: "c = (key, cand)" by (cases c)
  show ?case
    using Cons.prems Cons.IH
    by (simp add: c addNeighbor_body_fits addNeighbor_fits_def deg_def [symmetric])
qed

lemma replenish_inner_fits_result:
  "int (deg s n) < m \<Longrightarrow>
   \<exists>s1 stop. replenish_inner addNeighbor_fits ev n m cs s = Done (s1, stop) \<and>
      (\<not> stop \<longrightarrow> int (deg s1 n) < m)"
proof (induction cs arbitrary: s)
  case Nil
  then show ?case by auto
next
  case (Cons c cs)
  obtain key cand where c: "c = (key, cand)" by (cases c)
  show ?case
    using Cons.prems Cons.IH
    by (auto simp add: c addNeighbor_fits_def deg_def [symmetric])
qed

subsection \<open>The loop that finds the worst neighbor\<close>

lemma f32_gt_irrefl: "\<not> f32_gt a a"
  by (cases a) simp_all

lemma f32_gt_trans: "f32_gt a b \<Longrightarrow> f32_gt b c \<Longrightarrow> f32_gt a c"
  by (cases a; cases b; cases c) simp_all

lemma f32_gt_asym: "f32_gt a b \<Longrightarrow> \<not> f32_gt b a"
  by (cases a; cases b) simp_all

lemma measured_values:
  "\<forall>a. Value (ob a) = Value (ob' a) \<Longrightarrow> measured d v ob es = measured d v ob' es"
  by (induction es) (auto split: sum.splits)

lemma measured_nodes: "measured d v ob es = Inr cs \<Longrightarrow> map snd cs = map snd es"
proof (induction es arbitrary: cs)
  case Nil
  then show ?case by simp
next
  case (Cons e es)
  obtain k a where e: "e = (k, a)" by (cases e)
  from Cons.prems obtain x cs' where "measured d v ob es = Inr cs'" and "cs = (x, a) # cs'"
    by (auto simp add: e split: sum.splits)
  with Cons.IH [of cs'] show ?case by (simp add: e)
qed

lemma measured_succeeds:
  "\<forall>e \<in> set es. \<exists>x. d (Value (ob (snd e))) v = Inr x \<Longrightarrow> \<exists>cs. measured d v ob es = Inr cs"
proof (induction es)
  case Nil
  show ?case by simp
next
  case (Cons e es)
  obtain k a where e: "e = (k, a)" by (cases e)
  from Cons.prems obtain x where "d (Value (ob a)) v = Inr x" by (auto simp add: e)
  moreover from Cons obtain cs where "measured d v ob es = Inr cs" by auto
  ultimately show ?case by (simp add: e)
qed

lemma spec_worst_Some_ex: "\<exists>r. spec_worst (Some w) cs = Some r"
  by (induction cs arbitrary: w) simp_all

text \<open>The loop of \<open>addNeighbor\<close> computes the selection of the spec.\<close>

lemma find_worst_Some:
  "find_worst d v ob es wd (Some w) =
     (case measured d v ob es of
        Inl err \<Rightarrow> Inl err
      | Inr cs \<Rightarrow> (case spec_worst (Some (wd, w)) cs of
                     Some (dw, w') \<Rightarrow> Inr (dw, Some w')
                   | None \<Rightarrow> Inr (wd, Some w)))"
proof (induction es arbitrary: wd w)
  case Nil
  show ?case by simp
next
  case (Cons e es)
  obtain k a where e: "e = (k, a)" by (cases e)
  show ?case
  proof (cases "d (Value (ob a)) v")
    case (Inl err)
    then show ?thesis by (simp add: e)
  next
    case (Inr x)
    show ?thesis
    proof (cases "measured d v ob es")
      case (Inl err)
      with Inr Cons.IH show ?thesis by (simp add: e)
    next
      case cs: (Inr cs)
      with Inr Cons.IH [of x a] Cons.IH [of wd w]
        spec_worst_Some_ex [of "(x, a)" cs] spec_worst_Some_ex [of "(wd, w)" cs]
      show ?thesis by (auto simp add: e)
    qed
  qed
qed

lemma find_worst_spec:
  "find_worst d v ob es NegInf None =
     (case measured d v ob es of
        Inl err \<Rightarrow> Inl err
      | Inr cs \<Rightarrow> (case spec_worst None cs of
                     Some (dw, w) \<Rightarrow> Inr (dw, Some w)
                   | None \<Rightarrow> Inr (NegInf, None)))"
proof (cases es)
  case Nil
  then show ?thesis by simp
next
  case (Cons e es')
  obtain k a where e: "e = (k, a)" by (cases e)
  show ?thesis
  proof (cases "d (Value (ob a)) v")
    case (Inl err)
    then show ?thesis by (simp add: Cons e)
  next
    case (Inr x)
    show ?thesis
    proof (cases "measured d v ob es'")
      case (Inl err)
      with Inr show ?thesis by (simp add: Cons e find_worst_Some)
    next
      case cs: (Inr cs)
      with Inr spec_worst_Some_ex [of "(x, a)" cs] show ?thesis
        by (auto simp add: Cons e find_worst_Some)
    qed
  qed
qed

text \<open>What the selection of the spec selects.\<close>

lemma spec_worst_Some_mem: "spec_worst (Some w) cs = Some r \<Longrightarrow> r = w \<or> r \<in> set cs"
proof (induction cs arbitrary: w)
  case Nil
  then show ?case by simp
next
  case (Cons c cs)
  from Cons.IH [of "if f32_gt (fst c) (fst w) then c else w"] Cons.prems
  show ?case by (auto split: if_splits)
qed

lemma spec_worst_Some_grows:
  "spec_worst (Some w) cs = Some r \<Longrightarrow> r = w \<or> f32_gt (fst r) (fst w)"
proof (induction cs arbitrary: w)
  case Nil
  then show ?case by simp
next
  case (Cons c cs)
  show ?case
  proof (cases "f32_gt (fst c) (fst w)")
    case True
    with Cons.prems have "spec_worst (Some c) cs = Some r" by simp
    from Cons.IH [OF this] True show ?thesis by (auto intro: f32_gt_trans)
  next
    case False
    with Cons.prems have "spec_worst (Some w) cs = Some r" by simp
    from Cons.IH [OF this] show ?thesis .
  qed
qed

lemma spec_worst_Some_greatest:
  "spec_worst (Some w) cs = Some r \<Longrightarrow> \<forall>c \<in> set cs. \<not> f32_gt (fst c) (fst r)"
proof (induction cs arbitrary: w)
  case Nil
  show ?case by simp
next
  case (Cons c cs)
  show ?case
  proof (cases "f32_gt (fst c) (fst w)")
    case True
    with Cons.prems have r: "spec_worst (Some c) cs = Some r" by simp
    from spec_worst_Some_grows [OF r] have "\<not> f32_gt (fst c) (fst r)"
      by (auto simp add: f32_gt_irrefl dest: f32_gt_asym)
    with Cons.IH [OF r] show ?thesis by simp
  next
    case False
    with Cons.prems have r: "spec_worst (Some w) cs = Some r" by simp
    have "\<not> f32_gt (fst c) (fst r)"
    proof
      assume gt: "f32_gt (fst c) (fst r)"
      from spec_worst_Some_grows [OF r] show False
      proof
        assume "r = w"
        with gt False show False by simp
      next
        assume "f32_gt (fst r) (fst w)"
        with gt have "f32_gt (fst c) (fst w)" by (rule f32_gt_trans)
        with False show False by simp
      qed
    qed
    with Cons.IH [OF r] show ?thesis by simp
  qed
qed

lemma spec_worst_greatest:
  assumes "cs \<noteq> []"
  shows "\<exists>r. spec_worst None cs = Some r \<and> r \<in> set cs \<and>
           (\<forall>c \<in> set cs. \<not> f32_gt (fst c) (fst r))"
proof -
  from assms obtain c cs' where cs: "cs = c # cs'" by (cases cs) simp_all
  obtain r where r: "spec_worst (Some c) cs' = Some r"
    using spec_worst_Some_ex by blast
  from spec_worst_Some_mem [OF r] have mem: "r \<in> set cs" by (auto simp add: cs)
  from spec_worst_Some_grows [OF r] have "\<not> f32_gt (fst c) (fst r)"
    by (auto simp add: f32_gt_irrefl dest: f32_gt_asym)
  with spec_worst_Some_greatest [OF r] have "\<forall>c \<in> set cs. \<not> f32_gt (fst c) (fst r)"
    by (simp add: cs)
  with r mem show ?thesis by (simp add: cs)
qed

lemma find_worst_picks:
  assumes ms: "measured d v ob es = Inr cs" and ne: "es \<noteq> []"
  shows "\<exists>dw w kw. find_worst d v ob es NegInf None = Inr (dw, Some w) \<and>
           spec_worst None cs = Some (dw, w) \<and> (kw, w) \<in> set es \<and>
           (\<forall>c \<in> set cs. \<not> f32_gt (fst c) dw)"
proof -
  from measured_nodes [OF ms] have nodes: "map snd cs = map snd es" .
  with ne have "cs \<noteq> []" by auto
  from spec_worst_greatest [OF this] obtain dw w where
    r: "spec_worst None cs = Some (dw, w)" and mem: "(dw, w) \<in> set cs"
    and great: "\<forall>c \<in> set cs. \<not> f32_gt (fst c) dw"
    by auto
  from mem have "w \<in> set (map snd cs)" by force
  with nodes have "w \<in> snd ` set es" by simp
  then obtain kw where kw: "(kw, w) \<in> set es" by force
  have "find_worst d v ob es NegInf None = Inr (dw, Some w)"
    by (simp add: find_worst_spec ms r)
  with r kw great show ?thesis by blast
qed

subsection \<open>What replenish changes\<close>

lemma objs_set_neighbors:
  "objs (set_neighbors a ns s) b = (if b = a then (objs s a)\<lparr>neighbors := ns\<rparr> else objs s b)"
  by (simp add: set_neighbors_def)

lemma next_addr_set_neighbors [simp]: "next_addr (set_neighbors a ns s) = next_addr s"
  by (simp add: set_neighbors_def)

lemma tick_set_neighbors [simp]: "tick (set_neighbors a ns s) = tick s"
  by (simp add: set_neighbors_def)

lemma objs_tock [simp]: "objs (tock s) = objs s"
  by (simp add: tock_def)

lemma next_addr_tock [simp]: "next_addr (tock s) = next_addr s"
  by (simp add: tock_def)

lemma touched_refl: "touched w s s"
  by (simp add: touched_def)

lemma touched_trans: "touched w s s1 \<Longrightarrow> touched w s1 s2 \<Longrightarrow> touched w s s2"
  by (simp add: touched_def)

lemma touched_tock: "touched w s (tock s)"
  by (simp add: touched_def)

lemma touched_set_neighbors: "touched w s (set_neighbors w ns s)"
  by (simp add: touched_def objs_set_neighbors)

lemma touched_link: "touched n s (link n c s)"
  unfolding link_def by (rule touched_set_neighbors)

lemma deg_link_le: "deg (link n c s) n \<le> Suc (deg s n)"
  by (simp add: deg_def link_def objs_set_neighbors m_len_update_le)

subsection \<open>Maps and their iteration\<close>

lemma keys_delete: "fst ` set (AList.delete k m) = fst ` set m - {k}"
proof -
  have "set (map fst (AList.delete k m)) = set (map fst m) - {k}"
    by (simp add: delete_keys)
  then show ?thesis by simp
qed

lemma m_len_delete_ge: "m_len m \<le> Suc (m_len (AList.delete k m))"
proof -
  have "card (fst ` set m) \<le> Suc (card (fst ` set m - {k}))"
    by (cases "k \<in> fst ` set m") (simp_all add: card_Diff_singleton_if)
  then show ?thesis by (simp add: m_len_card keys_delete)
qed

lemma set_m_keys: "set (m_keys m) = fst ` set m"
  by (simp add: m_keys_def)

lemma ranged_keys: "fst ` set (ranged ev s m) = fst ` set m"
proof -
  let ?ks = "m_keys m" and ?p = "range_order ev (tick s) (m_keys m)"
  have "set (if sort ?p = ?ks then ?p else ?ks) = set ?ks"
  proof (cases "sort ?p = ?ks")
    case True
    then have "set (sort ?p) = set ?ks" by simp
    then have "set ?p = set ?ks" by (simp only: set_sort)
    with True show ?thesis by simp
  next
    case False
    then show ?thesis by simp
  qed
  then show ?thesis
    by (simp add: ranged_def Let_def image_image set_m_keys)
qed

lemma ranged_entry: "(k, a) \<in> set (ranged ev s m) \<longleftrightarrow> map_of m k = Some a"
proof
  assume "(k, a) \<in> set (ranged ev s m)"
  then have k: "k \<in> fst ` set (ranged ev s m)" and a: "a = the (map_of m k)"
    by (force, auto simp add: ranged_def Let_def)
  from k have "k \<in> fst ` set m" by (simp add: ranged_keys)
  then have "map_of m k \<noteq> None" by (simp add: map_of_eq_None_iff)
  with a show "map_of m k = Some a" by auto
next
  assume m: "map_of m k = Some a"
  then have "k \<in> fst ` set m" by (metis map_of_eq_None_iff option.distinct(1))
  then have "k \<in> fst ` set (ranged ev s m)" by (simp add: ranged_keys)
  then obtain b where b: "(k, b) \<in> set (ranged ev s m)" by force
  then have "b = the (map_of m k)" by (auto simp add: ranged_def Let_def)
  with m b show "(k, a) \<in> set (ranged ev s m)" by simp
qed

lemma ranged_tick_only: "tick s' = tick s \<Longrightarrow> ranged ev s' m = ranged ev s m"
  by (simp add: ranged_def)

subsection \<open>The walk of replenish over the map it fills\<close>

lemma distinct_m_keys: "distinct (m_keys m)"
  by (simp add: m_keys_def)

lemma sort_eq_set: "sort p = sort q \<Longrightarrow> set p = set q"
  by (metis set_sort)

lemma range_next_Some:
  assumes "range_next ev s start produced m = Some (k, v)"
  shows "k \<in> fst ` set m \<and> k \<notin> set produced \<and> map_of m k = Some v"
proof -
  define pending where "pending = [k \<leftarrow> m_keys m. k \<notin> set produced]"
  define old where "old = [k \<leftarrow> pending. k \<in> set start]"
  define created where "created = [k \<leftarrow> pending. k \<notin> set start]"
  define p where "p = range_order ev (tick s) (old @ created)"
  define xs where "xs = (if sort p = sort (old @ created) then p else old @ created)"
  have "set xs = set (old @ created)"
    by (auto simp add: xs_def dest: sort_eq_set)
  also have "\<dots> = set pending" by (auto simp add: old_def created_def)
  finally have sx: "set xs = {k \<in> fst ` set m. k \<notin> set produced}"
    by (auto simp add: pending_def set_m_keys)
  from assms have "\<exists>rest. xs = k # rest" and v: "v = the (map_of m k)"
    unfolding range_next_def Let_def pending_def [symmetric]
    unfolding old_def [symmetric] created_def [symmetric]
    unfolding p_def [symmetric]
    unfolding xs_def [symmetric]
    by (auto split: if_splits list.splits)
  then have "k \<in> set xs" by auto
  with sx have k: "k \<in> fst ` set m" "k \<notin> set produced" by auto
  from k(1) obtain y where "map_of m k = Some y"
    by (metis domD dom_map_of_conv_image_fst)
  with v k show ?thesis by simp
qed

lemma walk_measure:
  fixes K K1 :: "('k::linorder \<times> 'v) list"
  assumes sub: "fst ` set K \<subseteq> fst ` set K1"
    and k: "k \<in> fst ` set K" "k \<notin> set produced"
    and lt: "int (m_len K1) < m"
  shows "length [x \<leftarrow> m_keys K1. x \<notin> set (produced @ [k])] + nat (m - int (m_len K1))
       < length [x \<leftarrow> m_keys K. x \<notin> set produced] + nat (m - int (m_len K))"
proof -
  let ?A = "fst ` set K" and ?A1 = "fst ` set K1" and ?P = "set produced"
  have l1: "length [x \<leftarrow> m_keys K1. x \<notin> set (produced @ [k])] = card (?A1 - ?P - {k})"
  proof -
    have "{x. x \<notin> set (produced @ [k])} \<inter> set (m_keys K1) = ?A1 - ?P - {k}"
      by (auto simp add: set_m_keys)
    then show ?thesis by (simp add: distinct_length_filter distinct_m_keys)
  qed
  have l0: "length [x \<leftarrow> m_keys K. x \<notin> set produced] = card (?A - ?P)"
  proof -
    have "{x. x \<notin> set produced} \<inter> set (m_keys K) = ?A - ?P"
      by (auto simp add: set_m_keys)
    then show ?thesis by (simp add: distinct_length_filter distinct_m_keys)
  qed
  have fin: "finite ?A" "finite ?A1" by simp_all
  have "?A1 - ?P - {k} \<subseteq> (?A - ?P - {k}) \<union> (?A1 - ?A)" by blast
  then have "card (?A1 - ?P - {k}) \<le> card ((?A - ?P - {k}) \<union> (?A1 - ?A))"
    using fin by (intro card_mono) simp_all
  also have "\<dots> \<le> card (?A - ?P - {k}) + card (?A1 - ?A)" by (rule card_Un_le)
  finally have c1: "card (?A1 - ?P - {k}) \<le> card (?A - ?P - {k}) + card (?A1 - ?A)" .
  from k have kin: "k \<in> ?A - ?P" by simp
  have c2: "card (?A - ?P) = Suc (card (?A - ?P - {k}))"
    using card_Suc_Diff1 [of "?A - ?P" k] kin fin by simp
  have c3: "card (?A1 - ?A) = card ?A1 - card ?A"
    using fin sub by (simp add: card_Diff_subset)
  have c4: "card ?A \<le> card ?A1" using fin sub by (simp add: card_mono)
  from lt have c5: "int (card ?A1) < m" by (simp add: m_len_card)
  from c1 c2 c3 c4 c5 show ?thesis
    unfolding l1 l0 m_len_card by linarith
qed

lemma replenish_inner_rule:
  assumes plink: "\<And>s c. P s \<Longrightarrow> Q c \<Longrightarrow> int (deg s n) < m \<Longrightarrow> P (link n c s)"
  shows "\<forall>e \<in> set cs. Q (snd e) \<Longrightarrow> P s \<Longrightarrow> int (deg s n) < m \<Longrightarrow>
    \<exists>s1 stop. replenish_inner addNeighbor_fits ev n m cs s = Done (s1, stop) \<and> P s1 \<and>
       fst ` set (neighbors (objs s n)) \<subseteq> fst ` set (neighbors (objs s1 n)) \<and>
       int (deg s1 n) \<le> m \<and> (\<not> stop \<longrightarrow> int (deg s1 n) < m)"
proof (induction cs arbitrary: s)
  case Nil
  then show ?case by auto
next
  case (Cons c cs)
  obtain key cand where c: "c = (key, cand)" by (cases c)
  from Cons.prems(1) have q: "Q cand" and qs: "\<forall>e \<in> set cs. Q (snd e)"
    by (simp_all add: c)
  show ?case
  proof (cases "map_of (neighbors (objs s n)) key \<noteq> None \<or> cand = n")
    case True
    then have "replenish_inner addNeighbor_fits ev n m (c # cs) s =
        replenish_inner addNeighbor_fits ev n m cs s"
      by (auto simp add: c)
    with Cons.IH [OF qs Cons.prems(2,3)] show ?thesis by simp
  next
    case False
    let ?s = "link n cand s"
    have call: "addNeighbor_fits n cand m (CosineDistance ev) s = Done (?s, None)"
      by (simp add: addNeighbor_fits_def)
    have P': "P ?s" by (rule plink [OF Cons.prems(2) q Cons.prems(3)])
    have sub: "fst ` set (neighbors (objs s n)) \<subseteq> fst ` set (neighbors (objs ?s n))"
      by (auto simp add: link_def objs_set_neighbors dom_update)
    have le: "int (deg ?s n) \<le> m"
      using deg_link_le [of n cand s] Cons.prems(3) by linarith
    show ?thesis
    proof (cases "int (deg ?s n) \<ge> m")
      case True
      with False have "replenish_inner addNeighbor_fits ev n m (c # cs) s = Done (?s, True)"
        by (simp add: c call deg_def)
      with P' sub le show ?thesis by auto
    next
      case F2: False
      then have lt: "int (deg ?s n) < m" by simp
      from False F2 have eq: "replenish_inner addNeighbor_fits ev n m (c # cs) s =
          replenish_inner addNeighbor_fits ev n m cs ?s"
        by (simp add: c call deg_def)
      from Cons.IH [OF qs P' lt] obtain s1 stop where
        r: "replenish_inner addNeighbor_fits ev n m cs ?s = Done (s1, stop)" and p1: "P s1"
        and s1: "fst ` set (neighbors (objs ?s n)) \<subseteq> fst ` set (neighbors (objs s1 n))"
        and d1: "int (deg s1 n) \<le> m" "\<not> stop \<longrightarrow> int (deg s1 n) < m"
        by blast
      from sub s1 have "fst ` set (neighbors (objs s n)) \<subseteq> fst ` set (neighbors (objs s1 n))"
        by (rule subset_trans)
      with eq r p1 d1 show ?thesis by simp
    qed
  qed
qed

text \<open>
  The inner loop changes nothing when it walks the receiver's own map, and
  \<open>isolate\<close> leaves the receiver as it is when the receiver is not its own
  neighbor: both walks are over maps that stay as they are.
\<close>

lemma replenish_inner_own_map:
  "\<forall>e \<in> set cs. map_of (neighbors (objs s n)) (fst e) \<noteq> None \<Longrightarrow>
   replenish_inner addN ev n m cs s = Done (s, False)"
  by (induction cs) auto

lemma replenish_inner_receiver:
  "replenish_inner addN ev n m (ranged ev s' (neighbors (objs s n))) s = Done (s, False)"
proof (rule replenish_inner_own_map, rule ballI)
  fix e assume "e \<in> set (ranged ev s' (neighbors (objs s n)))"
  then have "(fst e, snd e) \<in> set (ranged ev s' (neighbors (objs s n)))" by simp
  then show "map_of (neighbors (objs s n)) (fst e) \<noteq> None" by (simp only: ranged_entry) simp
qed

text \<open>
  The walk ends, whatever the oracles answer: each step produces one more of the
  keys of the map, and the map holds fewer than \<open>m\<close> keys as long as the walk goes
  on. A property \<open>P\<close> of the store that \<open>tock\<close> and \<open>link\<close> keep holds at the end.
\<close>

lemma replenish_outer_rule:
  assumes ptock: "\<And>s. P s \<Longrightarrow> P (tock s)"
    and pcand: "\<And>s nb k c. P s \<Longrightarrow> map_of (neighbors (objs s nb)) k = Some c \<Longrightarrow> Q c"
    and plink: "\<And>s c. P s \<Longrightarrow> Q c \<Longrightarrow> int (deg s n) < m \<Longrightarrow> P (link n c s)"
  shows "P s \<Longrightarrow> int (deg s n) < m \<Longrightarrow>
    \<exists>s1. replenish_outer addNeighbor_fits ev n m start produced s = Some (Done s1) \<and>
       replenish_outer (addNeighbor_body rep ev) ev n m start produced s = Some (Done s1) \<and>
       P s1 \<and> int (deg s1 n) \<le> m"
proof (induction "length [x \<leftarrow> m_keys (neighbors (objs s n)). x \<notin> set produced]
                    + nat (m - int (deg s n))"
       arbitrary: produced s rule: less_induct)
  case less
  let ?nb = "neighbors (objs s n)"
  show ?case
  proof (cases "range_next ev s start produced ?nb")
    case None
    then have "replenish_outer addN ev n m start produced s = Some (Done s)" for addN
      by (subst replenish_outer.simps) simp
    with less.prems show ?thesis by simp
  next
    case (Some e)
    obtain k nb where e: "e = (k, nb)" by (cases e)
    from range_next_Some [OF Some [unfolded e]]
    have kin: "k \<in> fst ` set ?nb" and knew: "k \<notin> set produced" by simp_all
    let ?cs = "ranged ev (tock s) (neighbors (objs s nb))"
    let ?s' = "tock (tock s)"
    have P': "P ?s'" using less.prems(1) by (intro ptock)
    have d': "int (deg ?s' n) < m" using less.prems(2) by simp
    have q: "\<forall>e \<in> set ?cs. Q (snd e)"
    proof
      fix e assume "e \<in> set ?cs"
      then have "(fst e, snd e) \<in> set ?cs" by simp
      then have "map_of (neighbors (objs s nb)) (fst e) = Some (snd e)"
        by (simp only: ranged_entry)
      from pcand [OF less.prems(1) this] show "Q (snd e)" .
    qed
    from replenish_inner_rule [where P = P and Q = Q and ev = ev, OF plink q P' d']
    obtain s1 stop where
      r: "replenish_inner addNeighbor_fits ev n m ?cs ?s' = Done (s1, stop)" and p1: "P s1"
      and sub: "fst ` set (neighbors (objs ?s' n)) \<subseteq> fst ` set (neighbors (objs s1 n))"
      and d1: "int (deg s1 n) \<le> m" "\<not> stop \<longrightarrow> int (deg s1 n) < m"
      by blast
    have rb: "replenish_inner (addNeighbor_body rep ev) ev n m ?cs ?s' = Done (s1, stop)"
      using replenish_inner_fits [OF d'] r by simp
    have unf: "replenish_outer addNeighbor_fits ev n m start produced s =
        (if stop then Some (Done s1)
         else replenish_outer addNeighbor_fits ev n m start (produced @ [k]) s1)"
      by (subst replenish_outer.simps) (simp add: Some e r)
    have unfb: "replenish_outer (addNeighbor_body rep ev) ev n m start produced s =
        (if stop then Some (Done s1)
         else replenish_outer (addNeighbor_body rep ev) ev n m start (produced @ [k]) s1)"
      by (subst replenish_outer.simps) (simp add: Some e rb)
    show ?thesis
    proof (cases stop)
      case True
      with unf unfb p1 d1 show ?thesis by simp
    next
      case False
      with d1 have lt: "int (deg s1 n) < m" by simp
      from sub have sub': "fst ` set ?nb \<subseteq> fst ` set (neighbors (objs s1 n))" by simp
      from walk_measure [OF sub' kin knew lt [unfolded deg_def]]
      have "length [x \<leftarrow> m_keys (neighbors (objs s1 n)). x \<notin> set (produced @ [k])]
              + nat (m - int (deg s1 n))
          < length [x \<leftarrow> m_keys ?nb. x \<notin> set produced] + nat (m - int (deg s n))"
        by (simp add: deg_def)
      from less.hyps [OF this p1 lt] unf unfb False show ?thesis by simp
    qed
  qed
qed

lemma replenish_total_full:
  "int (deg s n) \<ge> m \<Longrightarrow> replenish_total ev n m s = Done s"
  by (simp add: replenish_total_def replenish_body_def deg_def)

lemma replenish_total_rule:
  assumes ptock: "\<And>s. P s \<Longrightarrow> P (tock s)"
    and pcand: "\<And>s nb k c. P s \<Longrightarrow> map_of (neighbors (objs s nb)) k = Some c \<Longrightarrow> Q c"
    and plink: "\<And>s c. P s \<Longrightarrow> Q c \<Longrightarrow> int (deg s n) < m \<Longrightarrow> P (link n c s)"
    and P: "P s"
  shows "\<exists>s1. replenish_total ev n m s = Done s1 \<and>
           replenish_body (addNeighbor_body rep ev) ev n m s = Done s1 \<and>
           P s1 \<and> int (deg s1 n) \<le> max m (int (deg s n))"
proof (cases "int (deg s n) \<ge> m")
  case True
  with P show ?thesis
    by (simp add: replenish_total_def replenish_body_def deg_def)
next
  case False
  then have lt: "int (deg s n) < m" by simp
  have "\<exists>s1. replenish_outer addNeighbor_fits ev n m (m_keys (neighbors (objs s n))) [] s
                = Some (Done s1) \<and>
       replenish_outer (addNeighbor_body rep ev) ev n m (m_keys (neighbors (objs s n))) [] s
         = Some (Done s1) \<and>
       P s1 \<and> int (deg s1 n) \<le> m"
  proof (rule replenish_outer_rule [where P = P and Q = Q])
    show "P (tock x)" if "P x" for x using that by (rule ptock)
    show "Q c" if "P x" "map_of (neighbors (objs x nb)) k = Some c" for x nb k c
      using that by (rule pcand)
    show "P (link n c x)" if "P x" "Q c" "int (deg x n) < m" for x c
      using that by (rule plink)
  qed (rule P lt)+
  then show ?thesis using False
    by (auto simp add: replenish_total_def replenish_body_def deg_def)
qed

lemma replenish_body_fits:
  "replenish_body (addNeighbor_body rep ev) ev n m s = replenish_total ev n m s"
  using replenish_total_rule
    [where P = "\<lambda>s. True" and Q = "\<lambda>c. True" and n = n and m = m and s = s and ev = ev
       and rep = rep]
  by auto

lemma replenish_total_returns: "\<exists>s1. replenish_total ev n m s = Done s1"
  using replenish_total_rule
    [where P = "\<lambda>s. True" and Q = "\<lambda>c. True" and n = n and m = m and s = s and ev = ev]
  by auto

lemma replenish_enough_fuel: "replenish (Suc (Suc f)) ev = replenish_total ev"
  by (intro ext) (simp add: replenish_def replenish_body_fits)

lemma addNeighbor_enough_fuel: "addNeighbor (Suc (Suc (Suc f))) ev = addNeighbor_total ev"
proof -
  have "addNeighbor (Suc (Suc (Suc f))) ev = addNeighbor_body (replenish (Suc (Suc f)) ev) ev"
    by (simp add: addNeighbor_def replenish_def)
  then show ?thesis by (simp add: replenish_enough_fuel addNeighbor_total_def)
qed

lemma replenish_total_touched:
  assumes "replenish_total ev n m s = Done s1"
  shows "touched n s s1"
proof -
  have "\<exists>s1. replenish_total ev n m s = Done s1 \<and>
           replenish_body (addNeighbor_body undefined ev) ev n m s = Done s1 \<and>
           touched n s s1 \<and> int (deg s1 n) \<le> max m (int (deg s n))"
  proof (rule replenish_total_rule [where P = "touched n s" and Q = "\<lambda>c. True"])
    show "touched n s (tock x)" if "touched n s x" for x
      using that touched_tock [of n x] by (rule touched_trans)
    show "touched n s (link n c x)" if "touched n s x" for x c
      using that touched_link [of n x c] by (rule touched_trans)
    show "touched n s s" by (rule touched_refl)
  qed simp
  with assms show ?thesis by simp
qed

lemma replenish_total_deg:
  assumes "replenish_total ev n m s = Done s1"
  shows "int (deg s1 n) \<le> max m (int (deg s n))"
  using replenish_total_rule
    [where P = "\<lambda>s. True" and Q = "\<lambda>c. True" and n = n and m = m and s = s and ev = ev]
    assms
  by auto

subsection \<open>Delete\<close>

lemma isolate_loop_returns:
  "\<exists>s'. isolate_loop (Suc (Suc f)) ev n m es s = Done s'"
proof (induction es arbitrary: s)
  case Nil
  show ?case by simp
next
  case (Cons e es)
  obtain k nb where e: "e = (k, nb)" by (cases e)
  obtain s1 where "replenish_total ev nb m
      (set_neighbors nb (AList.delete (Key (objs s n)) (neighbors (objs s nb))) s) = Done s1"
    using replenish_total_returns by blast
  with Cons.IH [of s1] show ?case
    by (simp add: e replenish_enough_fuel)
qed

lemma isolate_returns: "\<exists>s'. isolate (Suc (Suc f)) ev n m s = Done s'"
  unfolding isolate_def by (rule isolate_loop_returns)

lemma absent_delete: "map_of ns key = None \<Longrightarrow> AList.delete key ns = ns"
  by (simp add: map_of_eq_None_iff)

lemma delete_layers_spec:
  "\<exists>s'. delete_layers (Suc (Suc f)) ev key m ls deleted done s =
       Done (done @ map (\<lambda>l. \<lparr>nodes = AList.delete key (nodes l)\<rparr>) ls, s',
             deleted \<or> (\<exists>l \<in> set ls. map_of (nodes l) key \<noteq> None)) \<and>
     isolate_detached (Suc (Suc f)) ev key m ls s = Done s'"
proof (induction ls arbitrary: deleted "done" s)
  case Nil
  show ?case by simp
next
  case (Cons l ls)
  show ?case
  proof (cases "map_of (nodes l) key")
    case None
    then have same: "\<lparr>nodes = AList.delete key (nodes l)\<rparr> = l"
      by (simp add: absent_delete)
    from Cons.IH [of deleted "done @ [l]" s] None same
    show ?thesis by simp
  next
    case (Some nd)
    obtain s1 where s1: "isolate (Suc (Suc f)) ev nd m s = Done s1"
      using isolate_returns by blast
    from Cons.IH [of True "done @ [\<lparr>nodes = AList.delete key (nodes l)\<rparr>]" s1] Some s1
    show ?thesis by simp
  qed
qed

text \<open>
  What \<open>Delete\<close> does to the layers: with a recursion bound of at least 2,
  \<open>Delete(k)\<close> returns; its result is true iff some layer held \<open>k\<close>; afterwards no
  layer's node map holds \<open>k\<close>; the layer stack has the same length, each layer
  keeping its other nodes (so empty layers stay); the store is the one that the
  calls of \<open>isolate\<close> on the detached nodes leave.
\<close>

lemma Delete_result:
  assumes "2 \<le> fuel"
  shows "\<exists>h' deleted. Delete fuel ev h key = Done (h', deleted) \<and>
      (deleted \<longleftrightarrow> (\<exists>l \<in> set (layers h). map_of (nodes l) key \<noteq> None)) \<and>
      (\<forall>l \<in> set (layers h'). map_of (nodes l) key = None) \<and>
      length (layers h') = length (layers h) \<and>
      layers h' = map (\<lambda>l. \<lparr>nodes = AList.delete key (nodes l)\<rparr>) (layers h) \<and>
      isolate_detached fuel ev key (M h) (layers h) (store h) = Done (store h')"
proof -
  from assms obtain f where f: "fuel = Suc (Suc f)"
    by (metis Suc_le_D numeral_2_eq_2 le0 le_antisym not_less_eq_eq)
  show ?thesis
  proof (cases "layers h = []")
    case True
    then show ?thesis by (auto simp add: Delete_def DeleteWithLock_def)
  next
    case False
    from delete_layers_spec [of f ev key "M h" "layers h" False "[]" "store h"]
    obtain s' where d: "delete_layers (Suc (Suc f)) ev key (M h) (layers h) False [] (store h) =
         Done (map (\<lambda>l. \<lparr>nodes = AList.delete key (nodes l)\<rparr>) (layers h), s',
               \<exists>l \<in> set (layers h). map_of (nodes l) key \<noteq> None)"
      and i: "isolate_detached (Suc (Suc f)) ev key (M h) (layers h) (store h) = Done s'"
      by auto
    from False d i show ?thesis
      by (simp add: Delete_def DeleteWithLock_def f delete_conv')
  qed
qed

subsection \<open>addNeighbor evicts the worst neighbor\<close>

text \<open>
  C5 (as the code has it): let \<open>nbrs\<close> be the receiver's map after the insertion of
  \<open>target\<close>, keyed by the keys of its nodes, with more than \<open>m\<close> entries, and let
  the recursion bound be at least 3.

  If a call of the distance function fails, \<open>addNeighbor\<close> returns the error of the
  first call that fails and the receiver keeps the map \<open>nbrs\<close>: nothing is evicted.

  If every call succeeds, with \<open>cs\<close> the candidates in the order examined,
  \<open>addNeighbor\<close> returns without error and the node \<open>w\<close> that the selection of the
  spec selects from \<open>cs\<close> is evicted: \<open>w\<close> is the node of an entry \<open>kw\<close> of
  \<open>nbrs\<close>; no candidate has a distance strictly greater than that of \<open>w\<close>;
  exactly the entry \<open>kw\<close> is removed from the receiver's map; the receiver's key is
  removed from the map of \<open>w\<close>; \<open>replenish\<close> runs on \<open>w\<close> in the state \<open>s4\<close>
  reached by these two deletions and yields the final state, in which the
  receiver's map is still \<open>nbrs\<close> without \<open>kw\<close>.
\<close>

theorem addNeighbor_evicts_worst:
  fixes s :: "'k::linorder mem"
  assumes fuel: "3 \<le> fuel"
    and nbrs: "nbrs = AList.update (Key (objs s target)) target (neighbors (objs s n))"
    and over: "int (m_len nbrs) > m"
    and keyed: "\<forall>k a. map_of nbrs k = Some a \<longrightarrow> Key (objs s a) = k"
  shows
    "(\<forall>err. measured dist_fn (Value (objs s n)) (objs s) (ranged ev s nbrs) = Inl err \<longrightarrow>
        addNeighbor fuel ev n target m dist_fn s = Done (tock (set_neighbors n nbrs s), Some err)) \<and>
     (\<forall>cs. measured dist_fn (Value (objs s n)) (objs s) (ranged ev s nbrs) = Inr cs \<longrightarrow>
        (\<exists>kw w dw s4 s5.
           spec_worst None cs = Some (dw, w) \<and>
           map_of nbrs kw = Some w \<and>
           (\<forall>c \<in> set cs. \<not> f32_gt (fst c) dw) \<and>
           s4 = set_neighbors w
                  (AList.delete (Key (objs s n))
                     (neighbors (objs (set_neighbors n (AList.delete kw nbrs)
                                         (tock (set_neighbors n nbrs s))) w)))
                  (set_neighbors n (AList.delete kw nbrs) (tock (set_neighbors n nbrs s))) \<and>
           map_of (neighbors (objs s4 n)) = (map_of nbrs)(kw := None) \<and>
           map_of (neighbors (objs s4 w)) (Key (objs s n)) = None \<and>
           replenish (fuel - 1) ev w m s4 = Done s5 \<and>
           addNeighbor fuel ev n target m dist_fn s = Done (s5, None) \<and>
           map_of (neighbors (objs s5 n)) = (map_of nbrs)(kw := None)))"
proof -
  from fuel obtain f where f: "fuel = Suc (Suc (Suc f))"
    by (metis Suc_le_D numeral_3_eq_3 Suc_le_mono)
  define s1 where "s1 = set_neighbors n nbrs s"
  define v where "v = Value (objs s n)"
  define es where "es = ranged ev s1 nbrs"
  have vals: "\<forall>a. Value (objs s1 a) = Value (objs s a)"
    by (simp add: s1_def objs_set_neighbors)
  have keys1: "\<forall>a. Key (objs s1 a) = Key (objs s a)"
    by (simp add: s1_def objs_set_neighbors)
  have es_s: "es = ranged ev s nbrs"
    unfolding es_def by (rule ranged_tick_only) (simp add: s1_def)
  have ms: "measured dist_fn v (objs s1) es = measured dist_fn v (objs s) (ranged ev s nbrs)"
    unfolding es_s using vals by (rule measured_values)
  have "nbrs \<noteq> []" by (simp add: nbrs)
  then have "fst ` set nbrs \<noteq> {}" by simp
  then have "fst ` set es \<noteq> {}" by (simp add: es_s ranged_keys)
  then have ne: "es \<noteq> []" by auto
  have a: "\<not> int (m_len nbrs) \<le> m" using over by simp
  have v1: "Value (objs s1 n) = v" using vals by (simp add: v_def)
  have failing: "addNeighbor fuel ev n target m dist_fn s = Done (tock s1, Some err)"
    if "measured dist_fn v (objs s) (ranged ev s nbrs) = Inl err" for err
  proof -
    from that ms have "find_worst dist_fn v (objs s1) es NegInf None = Inl err"
      by (simp add: find_worst_spec)
    then have "addNeighbor_total ev n target m dist_fn s = Done (tock s1, Some err)"
      unfolding addNeighbor_total_def addNeighbor_body_def Let_def nbrs [symmetric]
        s1_def [symmetric]
      using a by (simp add: v1 es_def)
    then show ?thesis by (simp add: f addNeighbor_enough_fuel)
  qed
  have evicting: "\<exists>kw w dw s4 s5.
           spec_worst None cs = Some (dw, w) \<and>
           map_of nbrs kw = Some w \<and>
           (\<forall>c \<in> set cs. \<not> f32_gt (fst c) dw) \<and>
           s4 = set_neighbors w
                  (AList.delete (Key (objs s n))
                     (neighbors (objs (set_neighbors n (AList.delete kw nbrs) (tock s1)) w)))
                  (set_neighbors n (AList.delete kw nbrs) (tock s1)) \<and>
           map_of (neighbors (objs s4 n)) = (map_of nbrs)(kw := None) \<and>
           map_of (neighbors (objs s4 w)) (Key (objs s n)) = None \<and>
           replenish (fuel - 1) ev w m s4 = Done s5 \<and>
           addNeighbor fuel ev n target m dist_fn s = Done (s5, None) \<and>
           map_of (neighbors (objs s5 n)) = (map_of nbrs)(kw := None)"
    if "measured dist_fn v (objs s) (ranged ev s nbrs) = Inr cs" for cs
  proof -
    from that ms have ms1: "measured dist_fn v (objs s1) es = Inr cs" by simp
    from find_worst_picks [OF ms1 ne] obtain dw w kw where
      fw: "find_worst dist_fn v (objs s1) es NegInf None = Inr (dw, Some w)"
      and sw: "spec_worst None cs = Some (dw, w)"
      and mem: "(kw, w) \<in> set es"
      and great: "\<forall>c \<in> set cs. \<not> f32_gt (fst c) dw"
      by blast
    from mem have kw: "map_of nbrs kw = Some w" by (simp add: es_s ranged_entry)
    with keyed have kkw: "Key (objs s w) = kw" by blast
    define s3 where "s3 = set_neighbors n (AList.delete kw nbrs) (tock s1)"
    define s4 where
      "s4 = set_neighbors w (AList.delete (Key (objs s n)) (neighbors (objs s3 w))) s3"
    have n3: "neighbors (objs s3 n) = AList.delete kw nbrs"
      by (simp add: s3_def objs_set_neighbors)
    have key3: "Key (objs s3 n) = Key (objs s n)"
      by (simp add: s3_def s1_def objs_set_neighbors)
    have n4: "map_of (neighbors (objs s4 n)) = (map_of nbrs)(kw := None)"
    proof (cases "w = n")
      case True
      with kkw have "Key (objs s n) = kw" by simp
      with True show ?thesis
        by (simp add: s4_def objs_set_neighbors n3 delete_idem delete_conv')
    next
      case False
      then show ?thesis by (simp add: s4_def objs_set_neighbors n3 delete_conv')
    qed
    have w4: "map_of (neighbors (objs s4 w)) (Key (objs s n)) = None"
      by (simp add: s4_def objs_set_neighbors delete_conv')
    obtain s5 where s5: "replenish_total ev w m s4 = Done s5"
      using replenish_total_returns by blast
    have body: "addNeighbor_total ev n target m dist_fn s = Done (s5, None)"
    proof -
      have b: "find_worst dist_fn (Value (objs s1 n)) (objs s1) (ranged ev s1 nbrs) NegInf None =
          Inr (dw, Some w)"
        using fw by (simp add: v1 es_def)
      have c: "Key (objs (tock s1) w) = kw" using kkw keys1 by simp
      have d: "neighbors (objs (tock s1) n) = nbrs" by (simp add: s1_def objs_set_neighbors)
      show ?thesis
        unfolding addNeighbor_total_def addNeighbor_body_def Let_def nbrs [symmetric]
          s1_def [symmetric]
        using a b c d s5 by (simp add: s3_def [symmetric] key3 s4_def [symmetric])
    qed
    have n5: "map_of (neighbors (objs s5 n)) = (map_of nbrs)(kw := None)"
    proof (cases "w = n")
      case True
      have "m_len nbrs \<le> Suc (m_len (AList.delete kw nbrs))" by (rule m_len_delete_ge)
      moreover have "deg s4 n = m_len (AList.delete kw nbrs)"
        using True kkw by (simp add: deg_def s4_def objs_set_neighbors n3 delete_idem)
      ultimately have "int (deg s4 n) \<ge> m" using over by linarith
      with s5 True have "s5 = s4" by (simp add: replenish_total_full)
      with n4 show ?thesis by simp
    next
      case False
      from replenish_total_touched [OF s5] False have "objs s5 n = objs s4 n"
        by (simp add: touched_def)
      with n4 show ?thesis by simp
    qed
    have r: "replenish (fuel - 1) ev w m s4 = Done s5"
      using s5 by (simp add: f replenish_enough_fuel)
    have ad: "addNeighbor fuel ev n target m dist_fn s = Done (s5, None)"
      using body by (simp add: f addNeighbor_enough_fuel)
    have s4': "s4 = set_neighbors w
                  (AList.delete (Key (objs s n))
                     (neighbors (objs (set_neighbors n (AList.delete kw nbrs) (tock s1)) w)))
                  (set_neighbors n (AList.delete kw nbrs) (tock s1))"
      by (simp add: s4_def s3_def)
    from sw kw great s4' n4 w4 r ad n5 show ?thesis by blast
  qed
  from failing evicting show ?thesis unfolding v_def s1_def by blast
qed

theorem addNeighbor_evicts_worst_witness:
  "(3::nat) \<le> 3 \<and> int (m_len [(2::int, 1::nat), (3, 2), (4, 3)]) > 2 \<and>
   measured abs_distance [Fin 0] (objs fan_mem)
     (ranged sorted_env fan_mem [(2, 1), (3, 2), (4, 3)]) = Inr [(Fin 5, 1), (Fin 9, 2), (Fin 7, 3)] \<and>
   spec_worst None [(Fin 5, 1), (Fin 9, 2), (Fin 7, 3)] = Some (Fin 9, 2) \<and>
   (\<exists>s5. addNeighbor 3 sorted_env 0 3 2 abs_distance fan_mem = Done (s5, None) \<and>
      map_of (neighbors (objs s5 0)) 2 = Some 1 \<and>
      map_of (neighbors (objs s5 0)) 3 = None \<and>
      map_of (neighbors (objs s5 0)) 4 = Some 3) \<and>
   int (m_len [(2::int, 1::nat)]) > 0 \<and>
   measured failing_distance [Fin 1] (objs (store linked_pair))
     (ranged sorted_env (store linked_pair) [(2, 1)]) = Inl (DistError ''fail'') \<and>
   addNeighbor 3 sorted_env 0 1 0 failing_distance (store linked_pair) =
     Done (tock (set_neighbors 0 [(2, 1)] (store linked_pair)), Some (DistError ''fail''))"
proof -
  let ?nb = "[(2::int, 1::nat), (3, 2), (4, 3)]"
  let ?cs = "[(Fin 5, 1::nat), (Fin 9, 2), (Fin 7, 3)]"
  have f: "(3::nat) \<le> 3" by simp
  have n: "?nb = AList.update (Key (objs fan_mem 3)) 3 (neighbors (objs fan_mem 0))"
    by (simp add: fan_mem_def)
  have o: "int (m_len ?nb) > 2" by (simp add: m_len_def)
  have k: "\<forall>k a. map_of ?nb k = Some a \<longrightarrow> Key (objs fan_mem a) = k"
    by (simp add: fan_mem_def)
  have ms: "measured abs_distance (Value (objs fan_mem 0)) (objs fan_mem)
      (ranged sorted_env fan_mem ?nb) = Inr ?cs"
    by (simp add: fan_mem_def ranged_def m_keys_def sorted_env_def abs_distance_def)
  have sw: "spec_worst None ?cs = Some (Fin 9, 2)" by simp
  from addNeighbor_evicts_worst [where fuel = 3 and nbrs = ?nb and s = fan_mem
      and target = 3 and n = 0 and m = 2 and dist_fn = abs_distance and ev = sorted_env,
      OF f n o k] ms
  obtain kw w dw s5 where 1: "spec_worst None ?cs = Some (dw, w)"
    and 2: "map_of ?nb kw = Some w"
    and 3: "addNeighbor 3 sorted_env 0 3 2 abs_distance fan_mem = Done (s5, None)"
    and 4: "map_of (neighbors (objs s5 0)) = (map_of ?nb)(kw := None)"
    by blast
  from 1 sw have "w = 2" by simp
  with 2 have "kw = 3" by (simp split: if_splits)
  with 4 have 5: "map_of (neighbors (objs s5 0)) 2 = Some 1"
    "map_of (neighbors (objs s5 0)) 3 = None" "map_of (neighbors (objs s5 0)) 4 = Some 3"
    by simp_all
  let ?s = "store linked_pair"
  have n': "[(2::int, 1::nat)] = AList.update (Key (objs ?s 1)) 1 (neighbors (objs ?s 0))"
    by (simp add: linked_pair_def)
  have o': "int (m_len [(2::int, 1::nat)]) > 0" by (simp add: m_len_def)
  have k': "\<forall>k a. map_of [(2::int, 1::nat)] k = Some a \<longrightarrow> Key (objs ?s a) = k"
    by (simp add: linked_pair_def)
  have ms': "measured failing_distance (Value (objs ?s 0)) (objs ?s)
      (ranged sorted_env ?s [(2, 1)]) = Inl (DistError ''fail'')"
    by (simp add: linked_pair_def ranged_def m_keys_def sorted_env_def failing_distance_def)
  from addNeighbor_evicts_worst [where fuel = 3 and nbrs = "[(2::int, 1::nat)]" and s = "?s"
      and target = 1 and n = 0 and m = 0 and dist_fn = failing_distance and ev = sorted_env,
      OF f n' o' k'] ms'
  have 6: "addNeighbor 3 sorted_env 0 1 0 failing_distance ?s =
     Done (tock (set_neighbors 0 [(2, 1)] ?s), Some (DistError ''fail''))"
    by blast
  have v0: "Value (objs fan_mem 0) = [Fin 0]" "Value (objs ?s 0) = [Fin 1]"
    by (simp_all add: fan_mem_def linked_pair_def)
  from f o ms sw 3 5 o' ms' 6 show ?thesis unfolding v0 by blast
qed

text \<open>
  C5 as stated fails when the distance function fails: the call returns the error,
  the receiver's map still exceeds \<open>m = 0\<close> and no entry has been evicted.
\<close>

theorem addNeighbor_error_counterexample:
  "int (m_len (AList.update (Key (objs (store linked_pair) 1)) 1
          (neighbors (objs (store linked_pair) 0)))) > 0 \<and>
   is_Done (addNeighbor 3 sorted_env 0 1 0 failing_distance (store linked_pair)) \<and>
   snd (the_Done (addNeighbor 3 sorted_env 0 1 0 failing_distance (store linked_pair))) =
     Some (DistError ''fail'') \<and>
   neighbors (objs (fst (the_Done
       (addNeighbor 3 sorted_env 0 1 0 failing_distance (store linked_pair)))) 0) = [(2, 1)]"
  by (simp add: run_defs linked_pair_def)

subsection \<open>Keys and vectors of the layer nodes never change\<close>

lemma same_nodes_refl: "same_nodes s s"
  by (simp add: same_nodes_def)

lemma same_nodes_trans: "same_nodes s s1 \<Longrightarrow> same_nodes s1 s2 \<Longrightarrow> same_nodes s s2"
  by (simp add: same_nodes_def)

lemma touched_same_nodes: "touched w s s' \<Longrightarrow> same_nodes s s'"
  unfolding touched_def same_nodes_def by metis

lemma same_nodes_set_neighbors: "same_nodes s (set_neighbors a ns s)"
  by (simp add: same_nodes_def objs_set_neighbors)

lemma same_nodes_tock: "same_nodes s (tock s)"
  by (simp add: same_nodes_def)

lemma addNeighbor_total_same:
  assumes "addNeighbor_total ev n c m d s = Done (s', e)"
  shows "same_nodes s s'"
proof -
  define nbrs where "nbrs = AList.update (Key (objs s c)) c (neighbors (objs s n))"
  define s1 where "s1 = set_neighbors n nbrs s"
  have 1: "same_nodes s s1" unfolding s1_def by (rule same_nodes_set_neighbors)
  show ?thesis
  proof (cases "int (m_len nbrs) \<le> m")
    case True
    with assms have "s' = s1"
      by (simp add: addNeighbor_total_def addNeighbor_body_def Let_def nbrs_def s1_def)
    with 1 show ?thesis by simp
  next
    case False
    show ?thesis
    proof (cases "find_worst d (Value (objs s1 n)) (objs s1) (ranged ev s1 nbrs) NegInf None")
      case (Inl err)
      with False assms have "s' = tock s1"
        by (simp add: addNeighbor_total_def addNeighbor_body_def Let_def nbrs_def s1_def)
      with 1 same_nodes_tock [of s1] show ?thesis by (auto intro: same_nodes_trans)
    next
      case (Inr r)
      obtain dw wo where r: "r = (dw, wo)" by (cases r)
      show ?thesis
      proof (cases wo)
        case None
        with False assms Inr r show ?thesis
          by (simp add: addNeighbor_total_def addNeighbor_body_def Let_def nbrs_def s1_def)
      next
        case (Some w)
        define s3 where "s3 = set_neighbors n
            (AList.delete (Key (objs s1 w)) (neighbors (objs s1 n))) (tock s1)"
        define s4 where "s4 = set_neighbors w
            (AList.delete (Key (objs s3 n)) (neighbors (objs s3 w))) s3"
        from False assms Inr r Some have "replenish_total ev w m s4 = Done s'"
          by (simp add: addNeighbor_total_def addNeighbor_body_def Let_def nbrs_def [symmetric]
              s1_def [symmetric] s3_def [symmetric] s4_def [symmetric] split: exec.splits)
        then have 5: "same_nodes s4 s'" by (intro touched_same_nodes replenish_total_touched)
        have 3: "same_nodes s1 s3" unfolding s3_def
          using same_nodes_tock same_nodes_set_neighbors by (rule same_nodes_trans)
        have 4: "same_nodes s3 s4" unfolding s4_def by (rule same_nodes_set_neighbors)
        from 1 3 4 5 show ?thesis by (blast intro: same_nodes_trans)
      qed
    qed
  qed
qed

lemma isolate_loop_same:
  "isolate_loop (Suc (Suc f)) ev n m es s = Done s' \<Longrightarrow> same_nodes s s'"
proof (induction es arbitrary: s)
  case Nil
  then show ?case by (simp add: same_nodes_refl)
next
  case (Cons e es)
  obtain k nb where e: "e = (k, nb)" by (cases e)
  define s0 where "s0 = set_neighbors nb (AList.delete (Key (objs s n)) (neighbors (objs s nb))) s"
  obtain s1 where s1: "replenish_total ev nb m s0 = Done s1"
    using replenish_total_returns by blast
  with Cons.prems have "isolate_loop (Suc (Suc f)) ev n m es s1 = Done s'"
    by (simp add: e replenish_enough_fuel s0_def)
  then have b: "same_nodes s1 s'" by (rule Cons.IH)
  have a: "same_nodes s s0" unfolding s0_def by (rule same_nodes_set_neighbors)
  from s1 have "same_nodes s0 s1" by (intro touched_same_nodes replenish_total_touched)
  with a b show ?case by (blast intro: same_nodes_trans)
qed

lemma isolate_loop_receiver:
  "isolate_loop (Suc (Suc f)) ev n m es s = Done s' \<Longrightarrow> \<forall>e \<in> set es. snd e \<noteq> n \<Longrightarrow>
   objs s' n = objs s n"
proof (induction es arbitrary: s)
  case Nil
  then show ?case by simp
next
  case (Cons e es)
  obtain k nb where e: "e = (k, nb)" by (cases e)
  from Cons.prems(2) have nb: "nb \<noteq> n" and rest: "\<forall>e \<in> set es. snd e \<noteq> n"
    by (simp_all add: e)
  define s0 where "s0 = set_neighbors nb (AList.delete (Key (objs s n)) (neighbors (objs s nb))) s"
  obtain s1 where s1: "replenish_total ev nb m s0 = Done s1"
    using replenish_total_returns by blast
  with Cons.prems(1) have "isolate_loop (Suc (Suc f)) ev n m es s1 = Done s'"
    by (simp add: e replenish_enough_fuel s0_def)
  from Cons.IH [OF this rest] have "objs s' n = objs s1 n" .
  also from replenish_total_touched [OF s1] nb have "objs s1 n = objs s0 n"
    by (simp add: touched_def)
  also from nb have "objs s0 n = objs s n" by (simp add: s0_def objs_set_neighbors)
  finally show ?case .
qed

lemma isolate_same: "isolate (Suc (Suc f)) ev n m s = Done s' \<Longrightarrow> same_nodes s s'"
  unfolding isolate_def
  using same_nodes_tock isolate_loop_same by (rule same_nodes_trans)

lemma link_neighborhood_same:
  "link_neighborhood (Suc (Suc (Suc f))) ev newNode m d cs s = Done s' \<Longrightarrow> same_nodes s s'"
proof (induction cs arbitrary: s)
  case Nil
  then show ?case by (simp add: same_nodes_refl)
next
  case (Cons c cs)
  from Cons.prems obtain s1 e1 where
    1: "addNeighbor_total ev (node c) newNode m d s = Done (s1, e1)"
    by (simp add: addNeighbor_enough_fuel split: exec.splits prod.splits)
  with Cons.prems obtain s2 e2 where
    2: "addNeighbor_total ev newNode (node c) m d s1 = Done (s2, e2)"
    by (simp add: addNeighbor_enough_fuel split: exec.splits prod.splits)
  with 1 Cons.prems have "link_neighborhood (Suc (Suc (Suc f))) ev newNode m d cs s2 = Done s'"
    by (simp add: addNeighbor_enough_fuel)
  then have "same_nodes s2 s'" by (rule Cons.IH)
  with addNeighbor_total_same [OF 1] addNeighbor_total_same [OF 2]
  show ?case by (blast intro: same_nodes_trans)
qed

subsection \<open>What Add does to the base layer\<close>

lemma insert_node_result:
  assumes "insert_node (Suc (Suc (Suc f))) ev key a0 i d nbh wu g = Done (g3, wu3)"
  shows "\<exists>ns. layers g3 = (layers g)[i := \<lparr>nodes = ns\<rparr>] \<and>
           map_of ns = (map_of (nodes (layers g ! i)))(key \<mapsto> a0) \<and>
           same_nodes (store g) (store g3) \<and>
           wu3 = (wu \<or> map_of (nodes (layers g ! i)) key \<noteq> None)"
proof (cases "map_of (nodes (layers g ! i)) key")
  case None
  with assms obtain s' where
    l: "link_neighborhood (Suc (Suc (Suc f))) ev a0 (M g) d nbh (store g) = Done s'"
    and g3: "g3 = g\<lparr>layers := (layers g)[i := \<lparr>nodes = AList.update key a0 (nodes (layers g ! i))\<rparr>],
                    store := s'\<rparr>"
    and w: "wu3 = wu"
    by (auto simp add: insert_node_def Let_def split: exec.splits)
  from link_neighborhood_same [OF l] g3 w None show ?thesis
    by (intro exI [of _ "AList.update key a0 (nodes (layers g ! i))"]) (simp add: update_conv')
next
  case (Some old)
  with assms obtain s s' where
    i: "isolate (Suc (Suc (Suc f))) ev old (M g) (store g) = Done s"
    and l: "link_neighborhood (Suc (Suc (Suc f))) ev a0 (M g) d nbh s = Done s'"
    and g3: "g3 = g\<lparr>layers := (layers g)[i := \<lparr>nodes = AList.update key a0
                       (AList.delete key (nodes (layers g ! i)))\<rparr>], store := s'\<rparr>"
    and w: "wu3"
    by (auto simp add: insert_node_def Let_def split: exec.splits)
  from isolate_same [OF i] link_neighborhood_same [OF l]
  have "same_nodes (store g) s'" by (rule same_nodes_trans)
  with g3 w Some show ?thesis
    by (intro exI [of _ "AList.update key a0 (AList.delete key (nodes (layers g ! i)))"])
       (simp add: update_conv' delete_conv')
qed

lemma entry_snd: "snd (entry ev s l) = tock s"
  by (simp add: entry_def split: list.splits)

lemma entry_fst_None: "fst (entry ev s l) = None \<longleftrightarrow> ranged ev s (nodes l) = []"
  by (simp add: entry_def split: list.splits)

lemma option_case_if: "(case x of None \<Rightarrow> A | Some y \<Rightarrow> B) = (if x = None then A else B)"
  by (cases x) simp_all

lemma add_layers_Suc:
  "add_layers F ev key vec lvl (Suc i) el wu g =
     (let l = layers g ! i; a0 = next_addr (store g);
          s0 = snd (new_layerNode key vec (store g))
      in if ranged ev s0 (nodes l) = []
         then add_layers F ev key vec lvl i el wu
                (g\<lparr>layers := (layers g)[i := \<lparr>nodes = [(key, a0)]\<rparr>], store := tock s0\<rparr>)
         else
           (let sp = (case el of None \<Rightarrow> fst (entry ev (tock s0) l)
                      | Some k \<Rightarrow> map_of (nodes l) k);
                s2 = tock (tock s0);
                g2 = g\<lparr>store := s2\<rparr>
            in case Distance g of
                 None \<Rightarrow> Done (g2, wu, Some DistanceUnset)
               | Some d \<Rightarrow>
                  (case search F sp (M g) (EfConstruction g) vec d s2 of
                     Done (Inl err) \<Rightarrow> Done (g2, wu, Some err)
                   | Done (Inr []) \<Rightarrow> Done (g2, wu, Some EmptyNeighborhood)
                   | Done (Inr (c0 # cs)) \<Rightarrow>
                       (let el' = Some (Key (objs s2 (node c0)))
                        in if lvl \<ge> int i
                           then (case insert_node F ev key a0 i d (c0 # cs) wu g2 of
                                   Done (g3, wu') \<Rightarrow> add_layers F ev key vec lvl i el' wu' g3
                                 | Panic \<Rightarrow> Panic
                                 | OutOfFuel \<Rightarrow> OutOfFuel)
                           else add_layers F ev key vec lvl i el' wu g2)
                   | Panic \<Rightarrow> Panic
                   | OutOfFuel \<Rightarrow> OutOfFuel)))"
proof -
  define s0 where "s0 = snd (new_layerNode key vec (store g))"
  have nl: "new_layerNode key vec (store g) = (next_addr (store g), s0)"
    by (simp add: s0_def new_layerNode_def)
  show ?thesis
  proof (cases "ranged ev s0 (nodes (layers g ! i)) = []")
    case True
    then have "entry ev s0 (layers g ! i) = (None, tock s0)"
      by (simp add: entry_def)
    with True show ?thesis
      by (simp add: nl s0_def [symmetric] Let_def)
  next
    case False
    then obtain x where "entry ev s0 (layers g ! i) = (Some x, tock s0)"
      by (cases "ranged ev s0 (nodes (layers g ! i))") (auto simp add: entry_def)
    moreover obtain e2 where "entry ev (tock s0) (layers g ! i) = (e2, tock (tock s0))"
      by (cases "entry ev (tock s0) (layers g ! i)") (metis entry_snd snd_conv)
    ultimately show ?thesis using False
      by (cases "Distance g"; cases el) (simp_all add: nl s0_def [symmetric] Let_def)
  qed
qed


lemma add_layers_step:
  assumes r: "add_layers (Suc (Suc (Suc f))) ev key vec lvl (Suc i) el wu g = Done (g', wu', None)"
    and i: "i < length (layers g)"
  shows "\<exists>g'' el' wu''.
      add_layers (Suc (Suc (Suc f))) ev key vec lvl i el' wu'' g'' = Done (g', wu', None) \<and>
      length (layers g'') = length (layers g) \<and>
      (\<forall>j. j \<noteq> i \<longrightarrow> layers g'' ! j = layers g ! j) \<and>
      (int i \<le> lvl \<longrightarrow>
         map_of (nodes (layers g'' ! i)) =
           (map_of (nodes (layers g ! i)))(key \<mapsto> next_addr (store g)) \<and>
         Value (objs (store g'') (next_addr (store g))) = vec) \<and>
      wu'' = (wu \<or> (int i \<le> lvl \<and> map_of (nodes (layers g ! i)) key \<noteq> None))"
proof -
  let ?F = "Suc (Suc (Suc f))"
  define l where "l = layers g ! i"
  define a0 where "a0 = next_addr (store g)"
  define s0 where "s0 = snd (new_layerNode key vec (store g))"
  have v0: "Value (objs s0 a0) = vec" and n0: "next_addr s0 = Suc a0"
    by (simp_all add: s0_def a0_def new_layerNode_def)
  note unf = r [unfolded add_layers_Suc Let_def, folded l_def a0_def s0_def]
  show ?thesis
  proof (cases "ranged ev s0 (nodes l) = []")
    case True
    define g1 where "g1 = g\<lparr>layers := (layers g)[i := \<lparr>nodes = [(key, a0)]\<rparr>], store := tock s0\<rparr>"
    from unf True have rec: "add_layers ?F ev key vec lvl i el wu g1 = Done (g', wu', None)"
      by (simp add: g1_def)
    from True have "fst ` set (ranged ev s0 (nodes l)) = {}" by simp
    then have "nodes l = []" by (simp add: ranged_keys)
    then have m: "map_of (nodes (layers g1 ! i)) = (map_of (nodes l))(key \<mapsto> a0)"
      using i by (simp add: g1_def)
    have "Value (objs (store g1) a0) = vec" by (simp add: g1_def v0)
    with rec m i \<open>nodes l = []\<close> show ?thesis
      unfolding l_def a0_def by (intro exI [of _ g1] exI [of _ el] exI [of _ wu]) (simp add: g1_def)
  next
    case False
    define s2 where "s2 = tock (tock s0)"
    define g2 where "g2 = g\<lparr>store := s2\<rparr>"
    define sp where "sp = (case el of None \<Rightarrow> fst (entry ev (tock s0) l)
                           | Some k \<Rightarrow> map_of (nodes l) k)"
    from unf False obtain d where d: "Distance g = Some d"
      by (cases "Distance g") simp_all
    note unf2 = unf [folded s2_def sp_def, folded g2_def]
    from unf2 False d obtain c0 cs where
      se: "search ?F sp (M g) (EfConstruction g) vec d s2 = Done (Inr (c0 # cs))"
      by (simp split: exec.splits sum.splits list.splits)
    have v2: "Value (objs (store g2) a0) = vec" by (simp add: g2_def s2_def v0)
    show ?thesis
    proof (cases "int i \<le> lvl")
      case True
      with unf2 False d se obtain g3 wu3 where
        ins: "insert_node ?F ev key a0 i d (c0 # cs) wu g2 = Done (g3, wu3)"
        and rec: "add_layers ?F ev key vec lvl i (Some (Key (objs s2 (node c0)))) wu3 g3 =
                    Done (g', wu', None)"
        by (simp split: exec.splits prod.splits)
      from insert_node_result [OF ins] obtain ns where
        ls: "layers g3 = (layers g2)[i := \<lparr>nodes = ns\<rparr>]"
        and m: "map_of ns = (map_of (nodes (layers g2 ! i)))(key \<mapsto> a0)"
        and sn: "same_nodes (store g2) (store g3)"
        and w3: "wu3 = (wu \<or> map_of (nodes (layers g2 ! i)) key \<noteq> None)" by blast
      from w3 True have w3': "wu3 = (wu \<or> (int i \<le> lvl \<and> map_of (nodes (layers g ! i)) key \<noteq> None))"
        by (simp add: g2_def)
      from sn v2 have v3: "Value (objs (store g3) a0) = vec" by (simp add: same_nodes_def)
      from ls m i have m3: "map_of (nodes (layers g3 ! i)) = (map_of (nodes l))(key \<mapsto> a0)"
        by (simp add: g2_def l_def)
      from ls have len: "length (layers g3) = length (layers g)"
        and oth: "\<forall>j. j \<noteq> i \<longrightarrow> layers g3 ! j = layers g ! j"
        by (simp_all add: g2_def)
      from rec len oth m3 v3 w3' show ?thesis
        unfolding l_def a0_def by blast
    next
      case F2: False
      with unf2 False d se have
        rec: "add_layers ?F ev key vec lvl i (Some (Key (objs s2 (node c0)))) wu g2 =
                    Done (g', wu', None)"
        by simp
      have "length (layers g2) = length (layers g)" "\<forall>j. j \<noteq> i \<longrightarrow> layers g2 ! j = layers g ! j"
        by (simp_all add: g2_def)
      with rec F2 show ?thesis by blast
    qed
  qed
qed

lemma add_layers_base_layer:
  "add_layers (Suc (Suc (Suc f))) ev key vec lvl (Suc i) el wu g = Done (g', wu', None) \<Longrightarrow>
   i < length (layers g) \<Longrightarrow> 0 \<le> lvl \<Longrightarrow>
   length (layers g') = length (layers g) \<and>
   (\<exists>a. map_of (nodes (layers g' ! 0)) = (map_of (nodes (layers g ! 0)))(key \<mapsto> a) \<and>
       Value (objs (store g') a) = vec)"
proof (induction i arbitrary: el wu g)
  case 0
  from add_layers_step [OF "0.prems"(1,2)] obtain g'' el' wu'' where
    r: "add_layers (Suc (Suc (Suc f))) ev key vec lvl 0 el' wu'' g'' = Done (g', wu', None)"
    and len: "length (layers g'') = length (layers g)"
    and m: "int 0 \<le> lvl \<longrightarrow>
         map_of (nodes (layers g'' ! 0)) =
           (map_of (nodes (layers g ! 0)))(key \<mapsto> next_addr (store g)) \<and>
         Value (objs (store g'') (next_addr (store g))) = vec"
    by blast
  from r have "g' = g''" by simp
  with m len "0.prems"(3) show ?case by auto
next
  case (Suc i)
  from add_layers_step [OF Suc.prems(1,2)] obtain g'' el' wu'' where
    r: "add_layers (Suc (Suc (Suc f))) ev key vec lvl (Suc i) el' wu'' g'' = Done (g', wu', None)"
    and len: "length (layers g'') = length (layers g)"
    and oth: "\<forall>j. j \<noteq> Suc i \<longrightarrow> layers g'' ! j = layers g ! j"
    by blast
  from len Suc.prems(2) have "i < length (layers g'')" by simp
  from Suc.IH [OF r this Suc.prems(3)] oth len show ?case by simp
qed

lemma add_layers_updated:
  "add_layers (Suc (Suc (Suc f))) ev key vec lvl c el wu g = Done (g', wu', None) \<Longrightarrow>
   c \<le> length (layers g) \<Longrightarrow>
   wu' = (wu \<or> (\<exists>i < c. int i \<le> lvl \<and> map_of (nodes (layers g ! i)) key \<noteq> None))"
proof (induction c arbitrary: el wu g)
  case 0
  then show ?case by simp
next
  case (Suc c)
  from Suc.prems(2) have c: "c < length (layers g)" by simp
  from add_layers_step [OF Suc.prems(1) c] obtain g'' el' wu'' where
    r: "add_layers (Suc (Suc (Suc f))) ev key vec lvl c el' wu'' g'' = Done (g', wu', None)"
    and len: "length (layers g'') = length (layers g)"
    and oth: "\<forall>j. j \<noteq> c \<longrightarrow> layers g'' ! j = layers g ! j"
    and w: "wu'' = (wu \<or> (int c \<le> lvl \<and> map_of (nodes (layers g ! c)) key \<noteq> None))"
    by blast
  from len c have "c \<le> length (layers g'')" by simp
  from Suc.IH [OF r this]
  have "wu' = (wu'' \<or> (\<exists>i < c. int i \<le> lvl \<and> map_of (nodes (layers g'' ! i)) key \<noteq> None))" .
  moreover have "layers g'' ! i = layers g ! i" if "i < c" for i using that oth by simp
  ultimately have "wu' = (wu'' \<or> (\<exists>i < c. int i \<le> lvl \<and> map_of (nodes (layers g ! i)) key \<noteq> None))"
    by auto
  with w show ?case by (auto simp add: less_Suc_eq)
qed

lemma was_update_iff:
  "was_update g lvl key \<longleftrightarrow>
     (\<exists>i < length (layers g). int i \<le> lvl \<and> map_of (nodes (layers g ! i)) key \<noteq> None)"
  unfolding was_update_def list_ex_iff by (force simp add: in_set_enumerate_eq)

lemma grow_layers_eq:
  "grow_layers lvl ls = ls @ replicate (nat (lvl + 1 - int (length ls))) \<lparr>nodes = []\<rparr>"
proof (induction lvl ls rule: grow_layers.induct)
  case (1 lvl ls)
  show ?case
  proof (cases "lvl \<ge> int (length ls)")
    case True
    then have "nat (lvl + 1 - int (length ls)) = Suc (nat (lvl + 1 - int (length (ls @ [\<lparr>nodes = []\<rparr>]))))"
      by simp
    with True "1.IH" show ?thesis
      by (subst grow_layers.simps) (simp add: replicate_app_Cons_same)
  next
    case False
    then show ?thesis by (subst grow_layers.simps) simp
  qed
qed

lemma grow_layers_nonempty: "0 \<le> lvl \<Longrightarrow> grow_layers lvl ls \<noteq> []"
  by (cases ls) (simp_all add: grow_layers_eq)

lemma grow_layers_base:
  "0 \<le> lvl \<Longrightarrow> nodes (grow_layers lvl ls ! 0) = (if ls = [] then [] else nodes (ls ! 0))"
  by (cases ls) (simp_all add: grow_layers_eq nth_append)

lemma assertDims_layers: "assertDims ev g v = Done (g1, r) \<Longrightarrow> layers g1 = layers g"
  by (auto simp add: assertDims_def Dims_def split: if_splits exec.splits prod.splits option.splits)

lemma randomLevel_layers: "randomLevel ev g = (g1, r) \<Longrightarrow> layers g1 = layers g"
  by (auto simp add: randomLevel_def Let_def split: if_splits sum.splits prod.splits)

lemma assertDims_result:
  "assertDims ev g v = Done (g1, r) \<Longrightarrow> g1 = g \<or> g1 = g\<lparr>store := tock (store g)\<rparr>"
  by (auto simp add: assertDims_def Dims_def entry_def
      split: if_splits exec.splits prod.splits option.splits list.splits)

lemma randomLevel_store: "snd (randomLevel ev (g\<lparr>store := s\<rparr>)) = snd (randomLevel ev g)"
  by (simp add: randomLevel_def Let_def split: sum.splits prod.splits)

lemma grow_layers_holds:
  "(\<exists>i < length (grow_layers lvl ls). int i \<le> lvl' \<and> map_of (nodes (grow_layers lvl ls ! i)) key \<noteq> None)
     \<longleftrightarrow> (\<exists>i < length ls. int i \<le> lvl' \<and> map_of (nodes (ls ! i)) key \<noteq> None)"
proof -
  let ?n = "nat (lvl + 1 - int (length ls))"
  let ?ls = "ls @ replicate ?n \<lparr>nodes = []\<rparr>"
  have a: "map_of (nodes (?ls ! i)) key \<noteq> None \<longleftrightarrow>
      i < length ls \<and> map_of (nodes (ls ! i)) key \<noteq> None" if "i < length ?ls" for i
    using that by (cases "i < length ls") (simp_all add: nth_append)
  have "(\<exists>i < length ?ls. int i \<le> lvl' \<and> map_of (nodes (?ls ! i)) key \<noteq> None)
     \<longleftrightarrow> (\<exists>i < length ls. int i \<le> lvl' \<and> map_of (nodes (ls ! i)) key \<noteq> None)"
  proof
    assume "\<exists>i < length ?ls. int i \<le> lvl' \<and> map_of (nodes (?ls ! i)) key \<noteq> None"
    then obtain i where "i < length ?ls" "int i \<le> lvl'" "map_of (nodes (?ls ! i)) key \<noteq> None"
      by blast
    with a [of i] show "\<exists>i < length ls. int i \<le> lvl' \<and> map_of (nodes (ls ! i)) key \<noteq> None"
      by blast
  next
    assume "\<exists>i < length ls. int i \<le> lvl' \<and> map_of (nodes (ls ! i)) key \<noteq> None"
    then obtain i where i: "i < length ls" "int i \<le> lvl'" "map_of (nodes (ls ! i)) key \<noteq> None"
      by blast
    then have "i < length ?ls" by simp
    with a [of i] i
    show "\<exists>i < length ?ls. int i \<le> lvl' \<and> map_of (nodes (?ls ! i)) key \<noteq> None"
      by blast
  qed
  then show ?thesis unfolding grow_layers_eq .
qed

lemma Add_node_count:
  assumes ok: "Add_node (Suc (Suc (Suc f))) ev g nd = Done (g', None)"
    and lv: "snd (randomLevel ev g) = Inr lvl"
  shows "Len g' = (if was_update g lvl (Key nd) then Len g else Len g + 1)"
proof -
  let ?F = "Suc (Suc (Suc f))"
  from ok obtain g1 r where a: "assertDims ev g (Value nd) = Done (g1, r)"
    by (simp add: Add_node_def split: exec.splits prod.splits)
  obtain g2 rl where rl: "randomLevel ev g1 = (g2, rl)" by (cases "randomLevel ev g1")
  from assertDims_result [OF a] have "snd (randomLevel ev g1) = snd (randomLevel ev g)"
    by (auto simp add: randomLevel_store)
  with rl lv have lvl: "rl = Inr lvl" by simp
  define g3 where "g3 = g2\<lparr>layers := grow_layers lvl (layers g2)\<rparr>"
  from ok a rl lvl have nonneg: "0 \<le> lvl"
    by (simp add: Add_node_def Let_def split: if_splits)
  with ok a rl lvl obtain wu where
    al: "add_layers ?F ev (Key nd) (Value nd) lvl (length (layers g3)) None False g3 =
           Done (g', wu, None)"
    and chk: "Len g' = (if wu then Len g3 else Len g3 + 1)"
    by (simp add: Add_node_def Let_def g3_def
          split: if_splits exec.splits prod.splits option.splits)
  have l2: "layers g2 = layers g"
    using assertDims_layers [OF a] randomLevel_layers [OF rl] by simp
  from add_layers_updated [OF al]
  have "wu = (\<exists>i < length (layers g3). int i \<le> lvl \<and>
                 map_of (nodes (layers g3 ! i)) (Key nd) \<noteq> None)"
    by simp
  then have wu: "wu = was_update g lvl (Key nd)"
    using grow_layers_holds [of lvl "layers g" lvl "Key nd"]
    by (simp add: g3_def l2 was_update_iff)
  have "Len g3 = Len g"
    by (simp add: Len_def size_layer_def g3_def grow_layers_base grow_layers_nonempty nonneg l2
          m_len_def)
  with chk wu show ?thesis by simp
qed

lemma Add_node_base_layer:
  assumes ok: "Add_node (Suc (Suc (Suc f))) ev g nd = Done (g', None)"
  shows "layers g' \<noteq> [] \<and>
     (\<exists>a. map_of (nodes (layers g' ! 0)) = (map_of (base_nodes g))(Key nd \<mapsto> a) \<and>
          Value (objs (store g') a) = Value nd)"
proof -
  let ?F = "Suc (Suc (Suc f))"
  from ok obtain g1 r where a: "assertDims ev g (Value nd) = Done (g1, r)"
    by (simp add: Add_node_def split: exec.splits prod.splits)
  obtain g2 rl where rl: "randomLevel ev g1 = (g2, rl)" by (cases "randomLevel ev g1")
  with ok a obtain lvl where lvl: "rl = Inr lvl"
    by (cases rl) (simp_all add: Add_node_def)
  define g3 where "g3 = g2\<lparr>layers := grow_layers lvl (layers g2)\<rparr>"
  from ok a rl lvl have nonneg: "0 \<le> lvl"
    by (simp add: Add_node_def Let_def split: if_splits)
  with ok a rl lvl obtain wu where
    al: "add_layers ?F ev (Key nd) (Value nd) lvl (length (layers g3)) None False g3 =
           Done (g', wu, None)"
    by (simp add: Add_node_def Let_def g3_def split: if_splits exec.splits prod.splits option.splits)
  have l2: "layers g2 = layers g"
    using assertDims_layers [OF a] randomLevel_layers [OF rl] by simp
  have ne: "layers g3 \<noteq> []" by (simp add: g3_def grow_layers_nonempty nonneg)
  then obtain i where i: "length (layers g3) = Suc i" by (cases "layers g3") simp_all
  then have il: "i < length (layers g3)" by simp
  from add_layers_base_layer [OF al [unfolded i] il nonneg]
  obtain a0 where m: "map_of (nodes (layers g' ! 0)) = (map_of (nodes (layers g3 ! 0)))(Key nd \<mapsto> a0)"
    and v: "Value (objs (store g') a0) = Value nd"
    and len: "length (layers g') = length (layers g3)" by blast
  have "nodes (layers g3 ! 0) = base_nodes g"
    by (simp add: g3_def grow_layers_base nonneg l2 base_nodes_def)
  with m v have ex: "\<exists>a. map_of (nodes (layers g' ! 0)) = (map_of (base_nodes g))(Key nd \<mapsto> a) \<and>
          Value (objs (store g') a) = Value nd" by auto
  from len ne have "layers g' \<noteq> []" by auto
  with ex show ?thesis by simp
qed

text \<open>
  C9: after a successful \<open>Add\<close> of one node \<open>(k, v)\<close> (recursion bound at least 3),
  \<open>Lookup(k)\<close> returns \<open>v\<close>, whatever the graph held before; so a second
  successful \<open>Add\<close> of the same key with a vector \<open>v'\<close> makes \<open>Lookup(k)\<close> return
  \<open>v'\<close>.
\<close>

theorem Add_then_Lookup:
  assumes "3 \<le> fuel" and "Add fuel ev g [nd] = Done (g', None)"
  shows "Lookup g' (Key nd) = Some (Value nd) \<and>
    (\<forall>v' g''. Add fuel ev g' [\<lparr>Key = Key nd, Value = v'\<rparr>] = Done (g'', None) \<longrightarrow>
       Lookup g'' (Key nd) = Some v')"
proof -
  from assms(1) obtain f where f: "fuel = Suc (Suc (Suc f))"
    by (metis Suc_le_D numeral_3_eq_3 Suc_le_mono)
  from assms(2) have "Add_node (Suc (Suc (Suc f))) ev g nd = Done (g', None)"
    by (simp add: f split: exec.splits prod.splits option.splits)
  from Add_node_base_layer [OF this] have 1: "Lookup g' (Key nd) = Some (Value nd)"
    by (auto simp add: Lookup_def)
  have 2: "Lookup g'' (Key nd) = Some v'"
    if "Add fuel ev g' [\<lparr>Key = Key nd, Value = v'\<rparr>] = Done (g'', None)" for v' g''
  proof -
    from that have "Add_node (Suc (Suc (Suc f))) ev g' \<lparr>Key = Key nd, Value = v'\<rparr> = Done (g'', None)"
      by (simp add: f split: exec.splits prod.splits option.splits)
    from Add_node_base_layer [OF this] show ?thesis
      by (auto simp add: Lookup_def)
  qed
  from 1 2 show ?thesis by blast
qed

theorem Add_then_Lookup_witness:
  "(3::nat) \<le> 3 \<and>
   (\<exists>g'. Add 3 sorted_env linked_pair [\<lparr>Key = 1, Value = [Fin 7]\<rparr>] = Done (g', None) \<and>
      Lookup g' 1 = Some [Fin 7])"
proof -
  have f: "(3::nat) \<le> 3" by simp
  obtain g' where a: "Add 3 sorted_env linked_pair [\<lparr>Key = 1, Value = [Fin 7]\<rparr>] = Done (g', None)"
    by (simp add: run_defs linked_pair_def)
  from Add_then_Lookup [OF f a] have "Lookup g' 1 = Some [Fin 7]" by simp
  with f a show ?thesis by blast
qed

lemma m_len_dom: "m_len m = card (dom (map_of m))"
  by (simp add: m_len_card dom_map_of_conv_image_fst)

lemma Len_base: "Len g = card (dom (map_of (base_nodes g)))"
  by (simp add: Len_def base_nodes_def size_layer_def m_len_dom)

lemma Lookup_base: "Lookup g k \<noteq> None \<longleftrightarrow> k \<in> dom (map_of (base_nodes g))"
  by (auto simp add: Lookup_def base_nodes_def split: option.splits)

text \<open>
  C6: let \<open>Add\<close> of one node with key \<open>k\<close> return (recursion bound at least 3), with
  \<open>insertLevel\<close> the level \<open>randomLevel\<close> draws for it. If \<open>Add\<close> returns no
  error, \<open>Len()\<close> is unchanged when the insert was an update and one more when it
  was not, and the insert was an update exactly if \<open>k\<close> was present (\<open>Lookup\<close>
  found it). So when \<open>Len()\<close> is not that number (an insert that replaced a node of
  an upper layer and added one to the base layer, say), \<open>Add\<close> returns an error.
\<close>

theorem Add_Len:
  assumes "3 \<le> fuel" and "Add fuel ev g [nd] = Done (g', e)"
    and "snd (randomLevel ev g) = Inr insertLevel"
  shows "(e = None \<longrightarrow>
            Len g' = (if was_update g insertLevel (Key nd) then Len g else Len g + 1) \<and>
            (was_update g insertLevel (Key nd) \<longleftrightarrow> Lookup g (Key nd) \<noteq> None) \<and>
            Len g' = (if Lookup g (Key nd) \<noteq> None then Len g else Len g + 1)) \<and>
         (Len g' \<noteq> (if was_update g insertLevel (Key nd) then Len g else Len g + 1) \<longrightarrow>
            e \<noteq> None)"
proof -
  from assms(1) obtain f where f: "fuel = Suc (Suc (Suc f))"
    by (metis Suc_le_D numeral_3_eq_3 Suc_le_mono)
  have main: "Len g' = (if was_update g insertLevel (Key nd) then Len g else Len g + 1) \<and>
            (was_update g insertLevel (Key nd) \<longleftrightarrow> Lookup g (Key nd) \<noteq> None) \<and>
            Len g' = (if Lookup g (Key nd) \<noteq> None then Len g else Len g + 1)"
    if none: "e = None"
  proof -
    from assms(2) none have ok: "Add_node (Suc (Suc (Suc f))) ev g nd = Done (g', None)"
      by (simp add: f split: exec.splits prod.splits option.splits)
    from Add_node_count [OF ok assms(3)]
    have cnt: "Len g' = (if was_update g insertLevel (Key nd) then Len g else Len g + 1)" .
    from Add_node_base_layer [OF ok] obtain a where ne: "layers g' \<noteq> []"
      and m: "map_of (nodes (layers g' ! 0)) = (map_of (base_nodes g))(Key nd \<mapsto> a)" by blast
    from ne m have l: "Len g' = card (insert (Key nd) (dom (map_of (base_nodes g))))"
      by (simp add: Len_def size_layer_def m_len_dom)
    have fin: "finite (dom (map_of (base_nodes g)))" by (rule finite_dom_map_of)
    from cnt have c1: "Len g' = Len g" if "was_update g insertLevel (Key nd)"
      using that by simp
    from cnt have c2: "Len g' = Len g + 1" if "\<not> was_update g insertLevel (Key nd)"
      using that by simp
    have "was_update g insertLevel (Key nd) \<longleftrightarrow> Lookup g (Key nd) \<noteq> None"
    proof (cases "Lookup g (Key nd) \<noteq> None")
      case True
      then have "Key nd \<in> dom (map_of (base_nodes g))" using Lookup_base [of g "Key nd"] by blast
      with l have eq: "Len g' = Len g" by (simp add: insert_absorb Len_base)
      have "was_update g insertLevel (Key nd)"
      proof (rule ccontr)
        assume "\<not> was_update g insertLevel (Key nd)"
        from c2 [OF this] eq show False by simp
      qed
      with True show ?thesis by simp
    next
      case False
      then have "Key nd \<notin> dom (map_of (base_nodes g))" using Lookup_base [of g "Key nd"] by blast
      with l fin have eq: "Len g' = Len g + 1" by (simp add: Len_base)
      have "\<not> was_update g insertLevel (Key nd)"
      proof
        assume "was_update g insertLevel (Key nd)"
        from c1 [OF this] eq show False by simp
      qed
      with False show ?thesis by simp
    qed
    with cnt show ?thesis by simp
  qed
  then show ?thesis by blast
qed

theorem Add_Len_witness:
  "(3::nat) \<le> 3 \<and> Len linked_pair = 2 \<and> snd (randomLevel sorted_env linked_pair) = Inr 0 \<and>
   was_update linked_pair 0 1 \<and> \<not> was_update linked_pair 0 5 \<and>
   (\<exists>g'. Add 3 sorted_env linked_pair [\<lparr>Key = 1, Value = [Fin 7]\<rparr>] = Done (g', None) \<and>
      Len g' = 2) \<and>
   (\<exists>g'. Add 3 sorted_env linked_pair [\<lparr>Key = 5, Value = [Fin 7]\<rparr>] = Done (g', None) \<and>
      Len g' = 3) \<and>
   Len upper_graph = 1 \<and> Lookup upper_graph 5 = None \<and>
   snd (randomLevel sorted_env upper_graph) = Inr 1 \<and> was_update upper_graph 1 5 \<and>
   (\<exists>g' e. Add 3 sorted_env upper_graph [\<lparr>Key = 5, Value = [Fin 7]\<rparr>] = Done (g', e) \<and>
      Len g' = 2 \<and> e = Some NodeNotUpdated)"
proof -
  have f: "(3::nat) \<le> 3" by simp
  have l: "Len linked_pair = 2" by (simp add: run_defs linked_pair_def)
  have r: "snd (randomLevel sorted_env linked_pair) = Inr 0"
    by (simp add: run_defs linked_pair_def)
  have u: "was_update linked_pair 0 1" "\<not> was_update linked_pair 0 5"
    by (simp_all add: was_update_def linked_pair_def)
  obtain g1 where a: "Add 3 sorted_env linked_pair [\<lparr>Key = 1, Value = [Fin 7]\<rparr>] = Done (g1, None)"
    by (simp add: run_defs linked_pair_def)
  obtain g2 where b: "Add 3 sorted_env linked_pair [\<lparr>Key = 5, Value = [Fin 7]\<rparr>] = Done (g2, None)"
    by (simp add: run_defs linked_pair_def)
  from Add_Len [OF f a] r u l have 1: "Len g1 = 2" by simp
  from Add_Len [OF f b] r u l have 2: "Len g2 = 3" by simp
  have l': "Len upper_graph = 1" "Lookup upper_graph 5 = None"
    by (simp_all add: run_defs upper_graph_def)
  have r': "snd (randomLevel sorted_env upper_graph) = Inr 1"
    by (simp add: run_defs upper_graph_def)
  have u': "was_update upper_graph 1 5" by (simp add: was_update_def upper_graph_def)
  have "\<exists>g3 e. Add 3 sorted_env upper_graph [\<lparr>Key = 5, Value = [Fin 7]\<rparr>] = Done (g3, e) \<and>
      Len g3 = 2 \<and> (e = None \<or> e = Some NodeNotUpdated)"
    by (simp add: run_defs upper_graph_def)
  then obtain g3 e where
    c: "Add 3 sorted_env upper_graph [\<lparr>Key = 5, Value = [Fin 7]\<rparr>] = Done (g3, e)"
    and l3: "Len g3 = 2" and e: "e = None \<or> e = Some NodeNotUpdated"
    by blast
  from Add_Len [OF f c] r' u' l' l3 have "e \<noteq> None" by simp
  with e have 3: "e = Some NodeNotUpdated" by simp
  from f l r u a b 1 2 l' r' u' c l3 3 show ?thesis by blast
qed

subsection \<open>replenish keeps the invariants of the store\<close>

lemma keyed_tock: "keyed s \<Longrightarrow> keyed (tock s)"
  by (simp add: keyed_def)

lemma bounded_tock: "bounded m s \<Longrightarrow> bounded m (tock s)"
  by (simp add: bounded_def)

lemma keyed_delete:
  assumes "keyed s"
  shows "keyed (set_neighbors a (AList.delete k (neighbors (objs s a))) s)"
  unfolding keyed_def
proof (intro allI impI)
  fix a' k' b
  assume m: "map_of (neighbors (objs (set_neighbors a (AList.delete k (neighbors (objs s a))) s) a'))
      k' = Some b"
  have "map_of (neighbors (objs s a')) k' = Some b"
  proof (cases "a' = a")
    case True
    with m show ?thesis by (simp add: objs_set_neighbors delete_conv' split: if_splits)
  next
    case False
    with m show ?thesis by (simp add: objs_set_neighbors)
  qed
  with assms have "Key (objs s b) = k' \<and> b < next_addr s" unfolding keyed_def by blast
  then show "Key (objs (set_neighbors a (AList.delete k (neighbors (objs s a))) s) b) = k' \<and>
      b < next_addr (set_neighbors a (AList.delete k (neighbors (objs s a))) s)"
    by (auto simp add: objs_set_neighbors)
qed

lemma bounded_delete:
  assumes "bounded m s"
  shows "bounded m (set_neighbors a (AList.delete k (neighbors (objs s a))) s)"
  unfolding bounded_def
proof
  fix a'
  have "deg (set_neighbors a (AList.delete k (neighbors (objs s a))) s) a' \<le> deg s a'"
    by (simp add: deg_def objs_set_neighbors m_len_delete_le)
  moreover from assms have "int (deg s a') \<le> m" by (simp add: bounded_def)
  ultimately show "int (deg (set_neighbors a (AList.delete k (neighbors (objs s a))) s) a') \<le> m"
    by linarith
qed

lemma keyed_link:
  assumes "keyed s" and "c < next_addr s"
  shows "keyed (link n c s)"
  unfolding keyed_def
proof (intro allI impI)
  fix a k b
  assume m: "map_of (neighbors (objs (link n c s) a)) k = Some b"
  have "(map_of (neighbors (objs s a)) k = Some b) \<or> (b = c \<and> k = Key (objs s c))"
  proof (cases "a = n")
    case True
    with m show ?thesis
      by (simp add: link_def objs_set_neighbors update_conv' split: if_splits)
  next
    case False
    with m show ?thesis by (simp add: link_def objs_set_neighbors)
  qed
  with assms have "Key (objs s b) = k \<and> b < next_addr s" unfolding keyed_def by blast
  then show "Key (objs (link n c s) b) = k \<and> b < next_addr (link n c s)"
    by (auto simp add: link_def objs_set_neighbors)
qed

lemma deg_link_other: "a \<noteq> n \<Longrightarrow> deg (link n c s) a = deg s a"
  by (simp add: deg_def link_def objs_set_neighbors)

lemma bounded_link:
  assumes "bounded m s" and "int (deg s n) < m"
  shows "bounded m (link n c s)"
  unfolding bounded_def
proof
  fix a
  show "int (deg (link n c s) a) \<le> m"
  proof (cases "a = n")
    case True
    with deg_link_le [of n c s] assms(2) show ?thesis by simp
  next
    case False
    with assms(1) show ?thesis by (simp add: deg_link_other bounded_def)
  qed
qed

lemma replenish_total_wf:
  assumes r: "replenish_total ev n m s = Done s1" and k: "keyed s" and b: "bounded m s"
  shows "keyed s1 \<and> bounded m s1"
proof -
  let ?P = "\<lambda>x. keyed x \<and> bounded m x \<and> next_addr x = next_addr s"
  have "\<exists>s1. replenish_total ev n m s = Done s1 \<and>
           replenish_body (addNeighbor_body undefined ev) ev n m s = Done s1 \<and>
           ?P s1 \<and> int (deg s1 n) \<le> max m (int (deg s n))"
  proof (rule replenish_total_rule [where P = ?P and Q = "\<lambda>c. c < next_addr s"])
    show "?P (tock x)" if "?P x" for x
      using that by (simp add: keyed_tock bounded_tock)
    show "c < next_addr s" if "?P x" "map_of (neighbors (objs x nb)) key = Some c" for x nb key c
      using that unfolding keyed_def by metis
    show "?P (link n c x)" if "?P x" "c < next_addr s" "int (deg x n) < m" for x c
    proof -
      from that have "keyed (link n c x)" by (intro keyed_link) simp_all
      moreover from that have "bounded m (link n c x)" by (intro bounded_link) simp_all
      moreover from that have "next_addr (link n c x) = next_addr s" by (simp add: link_def)
      ultimately show ?thesis by simp
    qed
    show "?P s" using k b by simp
  qed
  with r show ?thesis by simp
qed

subsection \<open>addNeighbor and isolate keep the invariants of the store\<close>

lemma m_len_delete_present:
  assumes "k \<in> fst ` set m"
  shows "Suc (m_len (AList.delete k m)) = m_len m"
proof -
  have "finite (fst ` set m)" by simp
  from card_Suc_Diff1 [OF this assms] have "Suc (card (fst ` set m - {k})) = card (fst ` set m)" .
  then show ?thesis by (simp add: m_len_card keys_delete)
qed

lemma keyed_set_update:
  assumes "keyed s" and "c < next_addr s"
  shows "keyed (set_neighbors n (AList.update (Key (objs s c)) c (neighbors (objs s n))) s)"
  using keyed_link [OF assms] by (simp add: link_def)

lemma addNeighbor_total_wf:
  assumes r: "addNeighbor_total ev n c m d s = Done (s', e)"
    and k: "keyed s" and b: "bounded m s" and c: "c < next_addr s" and inf: "infallible d"
  shows "keyed s' \<and> bounded m s'"
proof -
  define nbrs where "nbrs = AList.update (Key (objs s c)) c (neighbors (objs s n))"
  define s1 where "s1 = set_neighbors n nbrs s"
  have k1: "keyed s1" unfolding s1_def nbrs_def using k c by (rule keyed_set_update)
  have n1: "neighbors (objs s1 n) = nbrs" by (simp add: s1_def objs_set_neighbors)
  have d1: "\<forall>a. a \<noteq> n \<longrightarrow> deg s1 a = deg s a" by (simp add: s1_def deg_def objs_set_neighbors)
  have le1: "m_len nbrs \<le> Suc (deg s n)" unfolding nbrs_def deg_def by (rule m_len_update_le)
  from b have bn: "int (deg s n) \<le> m" by (simp add: bounded_def)
  show ?thesis
  proof (cases "int (m_len nbrs) \<le> m")
    case True
    with r have s': "s' = s1"
      by (simp add: addNeighbor_total_def addNeighbor_body_def Let_def nbrs_def s1_def)
    have "bounded m s1" unfolding bounded_def
    proof
      fix a show "int (deg s1 a) \<le> m"
      proof (cases "a = n")
        case True with \<open>int (m_len nbrs) \<le> m\<close> n1 show ?thesis by (simp add: deg_def)
      next
        case False with d1 b show ?thesis by (simp add: bounded_def)
      qed
    qed
    with k1 s' show ?thesis by simp
  next
    case False
    define es where "es = ranged ev s1 nbrs"
    have "nbrs \<noteq> []" by (simp add: nbrs_def)
    then have "fst ` set nbrs \<noteq> {}" by simp
    then have "fst ` set es \<noteq> {}" by (simp add: es_def ranged_keys)
    then have ne: "es \<noteq> []" by auto
    have "\<forall>e \<in> set es. \<exists>x. d (Value (objs s1 (snd e))) (Value (objs s1 n)) = Inr x"
      using inf by (simp add: infallible_def)
    from measured_succeeds [where d = d and ob = "objs s1" and v = "Value (objs s1 n)", OF this]
    obtain cs where
      ms: "measured d (Value (objs s1 n)) (objs s1) es = Inr cs" by blast
    from find_worst_picks [OF ms ne] obtain dw w kw where
      fw: "find_worst d (Value (objs s1 n)) (objs s1) es NegInf None = Inr (dw, Some w)"
      and "(kw, w) \<in> set es" by blast
    then have kw: "map_of nbrs kw = Some w" by (simp add: es_def ranged_entry)
    with k1 n1 have kkw: "Key (objs s1 w) = kw" unfolding keyed_def by metis
    from kw have kin: "kw \<in> fst ` set nbrs" by (metis map_of_eq_None_iff option.distinct(1))
    define s3 where "s3 = set_neighbors n
            (AList.delete (Key (objs s1 w)) (neighbors (objs s1 n))) (tock s1)"
    define s4 where "s4 = set_neighbors w
            (AList.delete (Key (objs s3 n)) (neighbors (objs s3 w))) s3"
    from False r fw have rp: "replenish_total ev w m s4 = Done s'"
      by (simp add: addNeighbor_total_def addNeighbor_body_def Let_def nbrs_def [symmetric]
              s1_def [symmetric] es_def [symmetric] s3_def [symmetric] s4_def [symmetric]
              split: exec.splits)
    have s3': "s3 = set_neighbors n (AList.delete kw (neighbors (objs (tock s1) n))) (tock s1)"
      by (simp add: s3_def kkw)
    have k3: "keyed s3" unfolding s3' by (rule keyed_delete [OF keyed_tock [OF k1]])
    have k4: "keyed s4" unfolding s4_def by (rule keyed_delete [OF k3])
    have "Suc (m_len (AList.delete kw nbrs)) = m_len nbrs" using kin by (rule m_len_delete_present)
    with le1 bn have dn: "int (m_len (AList.delete kw nbrs)) \<le> m" by linarith
    have b3: "bounded m s3" unfolding bounded_def
    proof
      fix a show "int (deg s3 a) \<le> m"
      proof (cases "a = n")
        case True with dn n1 show ?thesis by (simp add: s3' deg_def objs_set_neighbors)
      next
        case False
        then have "deg s3 a = deg s a" by (simp add: s3' deg_def objs_set_neighbors s1_def)
        with b show ?thesis by (simp add: bounded_def)
      qed
    qed
    have b4: "bounded m s4" unfolding s4_def by (rule bounded_delete [OF b3])
    from replenish_total_wf [OF rp k4 b4] show ?thesis .
  qed
qed

lemma isolate_loop_wf:
  "isolate_loop (Suc (Suc f)) ev n m es s = Done s' \<Longrightarrow> keyed s \<Longrightarrow> bounded m s \<Longrightarrow>
   keyed s' \<and> bounded m s'"
proof (induction es arbitrary: s)
  case Nil
  then show ?case by simp
next
  case (Cons e es)
  obtain k nb where e: "e = (k, nb)" by (cases e)
  define s0 where "s0 = set_neighbors nb (AList.delete (Key (objs s n)) (neighbors (objs s nb))) s"
  obtain s1 where s1: "replenish_total ev nb m s0 = Done s1"
    using replenish_total_returns by blast
  with Cons.prems(1) have r: "isolate_loop (Suc (Suc f)) ev n m es s1 = Done s'"
    by (simp add: e replenish_enough_fuel s0_def)
  have "keyed s0" "bounded m s0" unfolding s0_def
    using Cons.prems(2,3) by (simp_all add: keyed_delete bounded_delete)
  from replenish_total_wf [OF s1 this] Cons.IH [OF r] show ?case by simp
qed

lemma isolate_wf:
  assumes "isolate (Suc (Suc f)) ev n m s = Done s'" and "keyed s" and "bounded m s"
  shows "keyed s' \<and> bounded m s'"
  using assms(1) unfolding isolate_def
  by (rule isolate_loop_wf) (simp_all add: assms keyed_tock bounded_tock)

lemma link_neighborhood_wf:
  "link_neighborhood (Suc (Suc (Suc f))) ev newNode m d cs s = Done s' \<Longrightarrow>
   keyed s \<Longrightarrow> bounded m s \<Longrightarrow> infallible d \<Longrightarrow> newNode < next_addr s \<Longrightarrow>
   \<forall>c \<in> set cs. node c < next_addr s \<Longrightarrow> keyed s' \<and> bounded m s'"
proof (induction cs arbitrary: s)
  case Nil
  then show ?case by simp
next
  case (Cons c cs)
  from Cons.prems(1) obtain s1 e1 where
    1: "addNeighbor_total ev (node c) newNode m d s = Done (s1, e1)"
    by (simp add: addNeighbor_enough_fuel split: exec.splits prod.splits)
  with Cons.prems(1) obtain s2 e2 where
    2: "addNeighbor_total ev newNode (node c) m d s1 = Done (s2, e2)"
    by (simp add: addNeighbor_enough_fuel split: exec.splits prod.splits)
  with 1 Cons.prems(1) have r: "link_neighborhood (Suc (Suc (Suc f))) ev newNode m d cs s2 = Done s'"
    by (simp add: addNeighbor_enough_fuel)
  from addNeighbor_total_same [OF 1] have n1: "next_addr s1 = next_addr s"
    by (simp add: same_nodes_def)
  from addNeighbor_total_same [OF 2] have n2: "next_addr s2 = next_addr s1"
    by (simp add: same_nodes_def)
  from addNeighbor_total_wf [OF 1 Cons.prems(2,3,5,4)] have w1: "keyed s1" "bounded m s1" by simp_all
  from Cons.prems(6) n1 have "node c < next_addr s1" by simp
  from addNeighbor_total_wf [OF 2 w1 this Cons.prems(4)] have w2: "keyed s2" "bounded m s2"
    by simp_all
  from Cons.prems(5,6) n1 n2 have "newNode < next_addr s2" "\<forall>c \<in> set cs. node c < next_addr s2"
    by simp_all
  from Cons.IH [OF r w2 Cons.prems(4) this] show ?case .
qed

subsection \<open>search returns allocated nodes\<close>

lemma set_heap_Push: "set (heap_Push x h) = insert x (set h)"
proof -
  have u: "set (takeWhile (\<lambda>y. \<not> Less x y) h) \<union> set (dropWhile (\<lambda>y. \<not> Less x y) h) = set h"
    by (metis set_append takeWhile_dropWhile_id)
  show ?thesis unfolding heap_Push_def set_append list.set using u by blast
qed

lemma allocated_Push: "allocated s h \<Longrightarrow> node x < next_addr s \<Longrightarrow> allocated s (heap_Push x h)"
  by (simp add: allocated_def set_heap_Push)

lemma allocated_PopLast: "allocated s h \<Longrightarrow> allocated s (heap_PopLast h)"
  by (auto simp add: allocated_def heap_PopLast_def dest: in_set_butlastD)

lemma allocated_Nil: "allocated s []"
  by (simp add: allocated_def)

lemma allocated_tl: "allocated s (c # cs) \<Longrightarrow> allocated s cs"
  by (simp add: allocated_def)

lemma search_neighbors_allocated:
  "search_neighbors k ef target d s cur ids cands res vis imp = Done (Inr (cands', res', vis', imp')) \<Longrightarrow>
   keyed s \<Longrightarrow> allocated s cands \<Longrightarrow> allocated s res \<Longrightarrow>
   allocated s cands' \<and> allocated s res'"
proof (induction ids arbitrary: cands res vis imp)
  case Nil
  then show ?case by simp
next
  case (Cons i ids)
  show ?case
  proof (cases "i \<in> vis")
    case True
    with Cons.prems(1) have
      "search_neighbors k ef target d s cur ids cands res vis imp = Done (Inr (cands', res', vis', imp'))"
      by simp
    from Cons.IH [OF this Cons.prems(2,3,4)] show ?thesis .
  next
    case False
    from False Cons.prems(1) obtain nb where nb: "map_of (neighbors (objs s cur)) i = Some nb"
      by (cases "map_of (neighbors (objs s cur)) i") simp_all
    with Cons.prems(2) have v: "nb < next_addr s" unfolding keyed_def by blast
    from False Cons.prems(1) nb obtain x where x: "d (Value (objs s nb)) target = Inr x"
      by (cases "d (Value (objs s nb)) target") simp_all
    from False Cons.prems(1) nb x obtain mn mx where mm: "heap_Min res = Some mn" "heap_Max res = Some mx"
      by (cases "heap_Min res"; cases "heap_Max res") simp_all
    let ?c = "\<lparr>node = nb, dist_to = x\<rparr>"
    let ?res1 = "(if int (length res) < k then heap_Push ?c res
                  else if f32_gt (dist_to mx) x then heap_Push ?c (heap_PopLast res)
                  else res)"
    let ?cands1 = "(if int (length (heap_Push ?c cands)) > ef
                    then heap_PopLast (heap_Push ?c cands) else heap_Push ?c cands)"
    have nc: "node ?c < next_addr s" by (simp add: v)
    have a1: "allocated s ?res1"
      using Cons.prems(4) nc by (simp add: allocated_Push allocated_PopLast)
    have a2: "allocated s ?cands1"
      using Cons.prems(3) nc by (simp add: allocated_Push allocated_PopLast)
    from False Cons.prems(1) nb x mm have
      "search_neighbors k ef target d s cur ids ?cands1 ?res1 (insert i vis)
         (imp \<or> f32_gt (dist_to mn) x) = Done (Inr (cands', res', vis', imp'))"
      by (simp add: Let_def split del: if_split)
    from Cons.IH [OF this Cons.prems(2) a2 a1] show ?thesis .
  qed
qed

lemma search_loop_allocated:
  "search_loop fuel k ef target d s cands res vis = Done (Inr out) \<Longrightarrow>
   keyed s \<Longrightarrow> allocated s cands \<Longrightarrow> allocated s res \<Longrightarrow> allocated s out"
proof (induction fuel arbitrary: cands res vis)
  case 0
  then show ?case by (cases cands) simp_all
next
  case (Suc fuel)
  show ?case
  proof (cases cands)
    case Nil
    with Suc.prems show ?thesis by simp
  next
    case (Cons c cs)
    from Suc.prems(1) Cons obtain cands' res' vis' imp' where
      sn: "search_neighbors k ef target d s (node c) (m_keys (neighbors (objs s (node c)))) cs res
             vis False = Done (Inr (cands', res', vis', imp'))"
      by (auto split: exec.splits sum.splits)
    from Suc.prems(3) Cons have "allocated s cs" by (simp add: allocated_tl)
    from search_neighbors_allocated [OF sn Suc.prems(2) this Suc.prems(4)]
    have a: "allocated s cands'" "allocated s res'" by simp_all
    show ?thesis
    proof (cases "\<not> imp' \<and> int (length res') \<ge> k")
      case True
      with Suc.prems(1) Cons sn have "out = res'" by simp
      with a show ?thesis by simp
    next
      case False
      with Suc.prems(1) Cons sn have
        "search_loop fuel k ef target d s cands' res' vis' = Done (Inr out)" by auto
      from Suc.IH [OF this Suc.prems(2) a] show ?thesis .
    qed
  qed
qed

lemma search_allocated:
  assumes "search fuel sp k ef target d s = Done (Inr out)" and "keyed s"
    and "\<forall>a. sp = Some a \<longrightarrow> a < next_addr s"
  shows "allocated s out"
proof -
  from assms(1) obtain a where sp: "sp = Some a" by (cases sp) (simp_all add: search_def)
  with assms(3) have v: "a < next_addr s" by simp
  from assms(1) sp obtain x where x: "d (Value (objs s a)) target = Inr x"
    by (cases "d (Value (objs s a)) target") (simp_all add: search_def)
  define c where "c = \<lparr>node = a, dist_to = x\<rparr>"
  have hm: "heap_Min (heap_Push c []) = Some c" by (simp add: heap_Min_def heap_Push_def)
  from assms(1) sp x hm have
    sl: "search_loop fuel k ef target d s (heap_Push c []) (heap_Push c []) {Key (objs s a)} =
       Done (Inr out)"
    by (simp add: search_def Let_def c_def)
  have "allocated s (heap_Push c [])"
    by (rule allocated_Push) (simp_all add: allocated_Nil c_def v)
  from search_loop_allocated [OF sl assms(2) this this] show ?thesis .
qed

subsection \<open>Add keeps the invariants of the graph\<close>

lemma layers_allocated_update:
  assumes "layers_allocated s ls" and "\<forall>k b. map_of ns k = Some b \<longrightarrow> b < next_addr s"
  shows "layers_allocated s (ls[i := \<lparr>nodes = ns\<rparr>])"
  unfolding layers_allocated_def
proof (intro ballI allI impI)
  fix l k b assume l: "l \<in> set (ls[i := \<lparr>nodes = ns\<rparr>])" and m: "map_of (nodes l) k = Some b"
  from l have "l = \<lparr>nodes = ns\<rparr> \<or> l \<in> set ls"
    using set_update_subset_insert [of ls i "\<lparr>nodes = ns\<rparr>"] by auto
  with m assms show "b < next_addr s" unfolding layers_allocated_def by auto
qed

lemma layers_allocated_mono:
  "layers_allocated s ls \<Longrightarrow> next_addr s \<le> next_addr s' \<Longrightarrow> layers_allocated s' ls"
  unfolding layers_allocated_def by (meson less_le_trans)

lemma layers_allocated_nth:
  "layers_allocated s ls \<Longrightarrow> i < length ls \<Longrightarrow> map_of (nodes (ls ! i)) k = Some b \<Longrightarrow>
   b < next_addr s"
  unfolding layers_allocated_def by (meson nth_mem)

lemma entry_allocated:
  assumes "fst (entry ev s' l) = Some a"
  shows "\<exists>k. map_of (nodes l) k = Some a"
proof -
  from assms obtain k rest where "ranged ev s' (nodes l) = (k, a) # rest"
    by (cases "ranged ev s' (nodes l)") (auto simp add: entry_def)
  then have "(k, a) \<in> set (ranged ev s' (nodes l))" by simp
  then have "map_of (nodes l) k = Some a" by (simp only: ranged_entry)
  then show ?thesis ..
qed

lemma new_layerNode_wf:
  assumes "keyed s" and "bounded m s" and "0 \<le> m"
  shows "keyed (snd (new_layerNode key vec s)) \<and> bounded m (snd (new_layerNode key vec s)) \<and>
     next_addr (snd (new_layerNode key vec s)) = Suc (next_addr s)"
proof -
  let ?s0 = "snd (new_layerNode key vec s)"
  have o: "\<And>a. a \<noteq> next_addr s \<Longrightarrow> objs ?s0 a = objs s a"
    and n: "neighbors (objs ?s0 (next_addr s)) = []"
    and x: "next_addr ?s0 = Suc (next_addr s)"
    by (simp_all add: new_layerNode_def)
  have "keyed ?s0" unfolding keyed_def
  proof (intro allI impI)
    fix a k b assume m: "map_of (neighbors (objs ?s0 a)) k = Some b"
    then have "a \<noteq> next_addr s" using n by auto
    with m o have "map_of (neighbors (objs s a)) k = Some b" by simp
    with assms(1) have kb: "Key (objs s b) = k \<and> b < next_addr s" unfolding keyed_def by blast
    then have "b \<noteq> next_addr s" by simp
    with o kb x show "Key (objs ?s0 b) = k \<and> b < next_addr ?s0" by simp
  qed
  moreover have "bounded m ?s0" unfolding bounded_def
  proof
    fix a show "int (deg ?s0 a) \<le> m"
    proof (cases "a = next_addr s")
      case True
      with n assms(3) show ?thesis by (simp add: deg_def m_len_def)
    next
      case False
      with o assms(2) show ?thesis by (simp add: deg_def bounded_def)
    qed
  qed
  ultimately show ?thesis using x by simp
qed

lemma insert_node_wf:
  assumes r: "insert_node (Suc (Suc (Suc f))) ev key a0 i d nbh wu g = Done (g3, wu3)"
    and wf: "wf_graph g" and inf: "infallible d" and a0: "a0 < next_addr (store g)"
    and nbh: "allocated (store g) nbh" and i: "i < length (layers g)"
  shows "wf_graph g3 \<and> M g3 = M g \<and> Distance g3 = Distance g \<and>
     length (layers g3) = length (layers g)"
proof -
  let ?F = "Suc (Suc (Suc f))"
  let ?l = "layers g ! i"
  from wf have k: "keyed (store g)" and b: "bounded (M g) (store g)"
    and la: "layers_allocated (store g) (layers g)" and m0: "0 \<le> M g"
    and dd: "\<forall>d. Distance g = Some d \<longrightarrow> infallible d"
    by (simp_all add: wf_graph_def)
  have fin: "wf_graph g3 \<and> M g3 = M g \<and> Distance g3 = Distance g \<and>
     length (layers g3) = length (layers g)"
    if s: "keyed s" "bounded (M g) s" "next_addr s = next_addr (store g)"
      and sub: "\<forall>k b. map_of ns k = Some b \<longrightarrow> map_of (nodes ?l) k = Some b"
      and l: "link_neighborhood ?F ev a0 (M g) d nbh s = Done s'"
      and g3: "g3 = g\<lparr>layers := (layers g)[i := \<lparr>nodes = AList.update key a0 ns\<rparr>], store := s'\<rparr>"
    for s s' ns
  proof -
    from s a0 nbh have a0s: "a0 < next_addr s" and nbs: "\<forall>c \<in> set nbh. node c < next_addr s"
      by (simp_all add: allocated_def)
    from link_neighborhood_wf [OF l s(1,2) inf a0s nbs] have w': "keyed s'" "bounded (M g) s'"
      by simp_all
    from link_neighborhood_same [OF l] s have nx: "next_addr s' = next_addr (store g)"
      by (simp add: same_nodes_def)
    have "\<forall>k b. map_of (AList.update key a0 ns) k = Some b \<longrightarrow> b < next_addr s'"
    proof (intro allI impI)
      fix k b assume "map_of (AList.update key a0 ns) k = Some b"
      then have "b = a0 \<or> map_of ns k = Some b" by (simp add: update_conv' split: if_splits)
      with sub have "b = a0 \<or> map_of (nodes ?l) k = Some b" by blast
      with a0 layers_allocated_nth [OF la i] nx show "b < next_addr s'" by auto
    qed
    moreover from la nx have "layers_allocated s' (layers g)"
      by (simp add: layers_allocated_mono)
    ultimately have "layers_allocated s' ((layers g)[i := \<lparr>nodes = AList.update key a0 ns\<rparr>])"
      by (intro layers_allocated_update)
    with w' m0 dd show ?thesis by (simp add: g3 wf_graph_def)
  qed
  show ?thesis
  proof (cases "map_of (nodes ?l) key")
    case None
    with r obtain s' where
      l: "link_neighborhood ?F ev a0 (M g) d nbh (store g) = Done s'"
      and g3: "g3 = g\<lparr>layers := (layers g)[i := \<lparr>nodes = AList.update key a0 (nodes ?l)\<rparr>],
                    store := s'\<rparr>"
      by (auto simp add: insert_node_def Let_def split: exec.splits)
    from fin [OF k b _ _ l g3] show ?thesis by simp
  next
    case (Some old)
    with r obtain s s' where
      isl: "isolate ?F ev old (M g) (store g) = Done s"
      and l: "link_neighborhood ?F ev a0 (M g) d nbh s = Done s'"
      and g3: "g3 = g\<lparr>layers := (layers g)[i := \<lparr>nodes = AList.update key a0
                       (AList.delete key (nodes ?l))\<rparr>], store := s'\<rparr>"
      by (auto simp add: insert_node_def Let_def split: exec.splits)
    from isolate_wf [OF isl k b] have w: "keyed s" "bounded (M g) s" by simp_all
    from isolate_same [OF isl] have nx: "next_addr s = next_addr (store g)"
      by (simp add: same_nodes_def)
    have sub: "\<forall>k b. map_of (AList.delete key (nodes ?l)) k = Some b \<longrightarrow>
        map_of (nodes ?l) k = Some b"
      by (simp add: delete_conv' split: if_splits)
    from fin [OF w nx sub l g3] show ?thesis .
  qed
qed

lemma wf_graph_store:
  assumes "wf_graph g" and "keyed s" and "bounded (M g) s" and "next_addr (store g) \<le> next_addr s"
  shows "wf_graph (g\<lparr>store := s\<rparr>)"
proof -
  from assms(1) have "layers_allocated (store g) (layers g)" by (simp add: wf_graph_def)
  from layers_allocated_mono [OF this assms(4)] assms(1,2,3) show ?thesis
    by (simp add: wf_graph_def)
qed

lemma add_layers_wf:
  "add_layers (Suc (Suc (Suc f))) ev key vec lvl c el wu g = Done (g', wu', e) \<Longrightarrow>
   wf_graph g \<Longrightarrow> c \<le> length (layers g) \<Longrightarrow>
   wf_graph g' \<and> M g' = M g \<and> Distance g' = Distance g"
proof (induction c arbitrary: el wu g)
  case 0
  then show ?case by simp
next
  case (Suc i)
  let ?F = "Suc (Suc (Suc f))"
  from Suc.prems(3) have i: "i < length (layers g)" and ile: "i \<le> length (layers g)" by simp_all
  define l where "l = layers g ! i"
  define a0 where "a0 = next_addr (store g)"
  define s0 where "s0 = snd (new_layerNode key vec (store g))"
  from Suc.prems(2) have k: "keyed (store g)" and b: "bounded (M g) (store g)"
    and la: "layers_allocated (store g) (layers g)" and m0: "0 \<le> M g"
    and dd: "\<forall>d. Distance g = Some d \<longrightarrow> infallible d"
    by (simp_all add: wf_graph_def)
  from new_layerNode_wf [OF k b m0, of key vec]
  have k0: "keyed s0" and b0: "bounded (M g) s0" and n0: "next_addr s0 = Suc a0"
    by (simp_all add: s0_def a0_def)
  note unf = Suc.prems(1) [unfolded add_layers_Suc Let_def, folded l_def a0_def s0_def]
  show ?case
  proof (cases "ranged ev s0 (nodes l) = []")
    case True
    define g1 where "g1 = g\<lparr>layers := (layers g)[i := \<lparr>nodes = [(key, a0)]\<rparr>], store := tock s0\<rparr>"
    from unf True have rec: "add_layers ?F ev key vec lvl i el wu g1 = Done (g', wu', e)"
      by (simp add: g1_def)
    have "layers_allocated (tock s0) (layers g)"
      using la by (rule layers_allocated_mono) (simp add: n0 a0_def)
    moreover have "\<forall>k b. map_of [(key, a0)] k = Some b \<longrightarrow> b < next_addr (tock s0)"
      by (simp add: n0)
    ultimately have "layers_allocated (tock s0) ((layers g)[i := \<lparr>nodes = [(key, a0)]\<rparr>])"
      by (rule layers_allocated_update)
    with k0 b0 m0 dd have "wf_graph g1"
      by (simp add: wf_graph_def g1_def keyed_tock bounded_tock)
    from Suc.IH [OF rec this] ile show ?thesis by (simp add: g1_def)
  next
    case False
    define s2 where "s2 = tock (tock s0)"
    define g2 where "g2 = g\<lparr>store := s2\<rparr>"
    define sp where "sp = (case el of None \<Rightarrow> fst (entry ev (tock s0) l)
                           | Some k \<Rightarrow> map_of (nodes l) k)"
    note unf2 = unf [folded s2_def sp_def, folded g2_def]
    have k2: "keyed s2" and b2: "bounded (M g) s2" and n2: "next_addr s2 = Suc a0"
      by (simp_all add: s2_def k0 b0 n0 keyed_tock bounded_tock)
    have w2: "wf_graph g2" unfolding g2_def
      by (rule wf_graph_store [OF Suc.prems(2) k2 b2]) (simp add: n2 a0_def)
    have c2: "M g2 = M g" "Distance g2 = Distance g" "length (layers g2) = length (layers g)"
      by (simp_all add: g2_def)
    show ?thesis
    proof (cases "Distance g")
      case None
      with unf2 False have "g' = g2" by simp
      with w2 c2 show ?thesis by simp
    next
      case (Some d)
      with dd have inf: "infallible d" by simp
      show ?thesis
      proof (cases "search ?F sp (M g) (EfConstruction g) vec d s2")
        case Panic
        with unf2 False Some show ?thesis by simp
      next
        case OutOfFuel
        with unf2 False Some show ?thesis by simp
      next
        case (Done r)
        show ?thesis
        proof (cases r)
          case (Inl err)
          with unf2 False Some Done have "g' = g2" by simp
          with w2 c2 show ?thesis by simp
        next
          case (Inr nbh)
          show ?thesis
          proof (cases nbh)
            case Nil
            with unf2 False Some Done Inr have "g' = g2" by simp
            with w2 c2 show ?thesis by simp
          next
            case (Cons c0 cs)
            have spv: "\<forall>a. sp = Some a \<longrightarrow> a < next_addr s2"
            proof (intro allI impI)
              fix a assume "sp = Some a"
              then have "\<exists>k. map_of (nodes l) k = Some a"
                unfolding sp_def by (cases el) (auto dest: entry_allocated)
              with layers_allocated_nth [OF la i] have "a < next_addr (store g)"
                unfolding l_def by blast
              then show "a < next_addr s2" by (simp add: n2 a0_def)
            qed
            from Done Inr have "search ?F sp (M g) (EfConstruction g) vec d s2 = Done (Inr nbh)"
              by simp
            from search_allocated [OF this k2 spv] have al: "allocated (store g2) nbh"
              by (simp add: g2_def)
            show ?thesis
            proof (cases "int i \<le> lvl")
              case True
              with unf2 False Some Done Inr Cons obtain g3 wu3 where
                ins: "insert_node ?F ev key a0 i d nbh wu g2 = Done (g3, wu3)"
                and rec: "add_layers ?F ev key vec lvl i (Some (Key (objs s2 (node c0)))) wu3 g3 =
                    Done (g', wu', e)"
                by (simp split: exec.splits prod.splits)
              have "a0 < next_addr (store g2)" by (simp add: g2_def n2)
              from insert_node_wf [OF ins w2 inf this al] i c2
              have w3: "wf_graph g3" and c3: "M g3 = M g" "Distance g3 = Distance g"
                "length (layers g3) = length (layers g)" by simp_all
              from Suc.IH [OF rec w3] ile c3 show ?thesis by simp
            next
              case F2: False
              with unf2 False Some Done Inr Cons have
                rec: "add_layers ?F ev key vec lvl i (Some (Key (objs s2 (node c0)))) wu g2 =
                    Done (g', wu', e)"
                by simp
              from Suc.IH [OF rec w2] ile c2 show ?thesis by simp
            qed
          qed
        qed
      qed
    qed
  qed
qed

lemma randomLevel_result: "randomLevel ev g = (g1, r) \<Longrightarrow> \<exists>p. g1 = g\<lparr>rng_pos := p\<rparr>"
proof -
  assume a: "randomLevel ev g = (g1, r)"
  have triv: "g = g\<lparr>rng_pos := rng_pos g\<rparr>" by simp
  from a show ?thesis
    by (auto simp add: randomLevel_def Let_def split: if_splits sum.splits prod.splits
        intro: exI [of _ "rng_pos g"])
qed

lemma layers_allocated_grow:
  assumes "layers_allocated s ls"
  shows "layers_allocated s (grow_layers lvl ls)"
  using assms unfolding layers_allocated_def grow_layers_eq by auto

lemma Add_node_wf:
  assumes r: "Add_node (Suc (Suc (Suc f))) ev g nd = Done (g', e)" and wf: "wf_graph g"
  shows "wf_graph g' \<and> M g' = M g \<and> Distance g' = Distance g"
proof -
  let ?F = "Suc (Suc (Suc f))"
  from r obtain g1 r1 where a: "assertDims ev g (Value nd) = Done (g1, r1)"
    by (simp add: Add_node_def split: exec.splits prod.splits)
  from assertDims_result [OF a] wf have w1: "wf_graph g1" and c1: "M g1 = M g" "Distance g1 = Distance g"
    by (auto simp add: wf_graph_def keyed_tock bounded_tock layers_allocated_def)
  obtain g2 rl where rl: "randomLevel ev g1 = (g2, rl)" by (cases "randomLevel ev g1")
  from randomLevel_result [OF rl] w1 c1
  have w2: "wf_graph g2" and c2: "M g2 = M g" "Distance g2 = Distance g"
    by (auto simp add: wf_graph_def)
  show ?thesis
  proof (cases rl)
    case (Inl err)
    with r a rl have "g' = g2" by (simp add: Add_node_def)
    with w2 c2 show ?thesis by simp
  next
    case (Inr lvl)
    define g3 where "g3 = g2\<lparr>layers := grow_layers lvl (layers g2)\<rparr>"
    from w2 have w3: "wf_graph g3"
      by (simp add: wf_graph_def g3_def layers_allocated_grow)
    have c3: "M g3 = M g" "Distance g3 = Distance g" by (simp_all add: g3_def c2)
    show ?thesis
    proof (cases "lvl < 0")
      case True
      with r a rl Inr have "g' = g3" by (simp add: Add_node_def Let_def g3_def)
      with w3 c3 show ?thesis by simp
    next
      case False
      with r a rl Inr obtain wu e' where
        al: "add_layers ?F ev (Key nd) (Value nd) lvl (length (layers g3)) None False g3 =
           Done (g', wu, e')"
        by (simp add: Add_node_def Let_def g3_def
            split: if_splits exec.splits prod.splits option.splits)
      from add_layers_wf [OF al w3] c3 show ?thesis by simp
    qed
  qed
qed

lemma Add_wf:
  "Add (Suc (Suc (Suc f))) ev g nds = Done (g', e) \<Longrightarrow> wf_graph g \<Longrightarrow>
   wf_graph g' \<and> M g' = M g \<and> Distance g' = Distance g"
proof (induction nds arbitrary: g)
  case Nil
  then show ?case by simp
next
  case (Cons nd nds)
  from Cons.prems(1) obtain g1 e1 where
    a: "Add_node (Suc (Suc (Suc f))) ev g nd = Done (g1, e1)"
    by (simp split: exec.splits prod.splits)
  from Add_node_wf [OF a Cons.prems(2)] have w1: "wf_graph g1"
    and c1: "M g1 = M g" "Distance g1 = Distance g" by simp_all
  show ?case
  proof (cases e1)
    case None
    with Cons.prems(1) a have "Add (Suc (Suc (Suc f))) ev g1 nds = Done (g', e)" by simp
    from Cons.IH [OF this w1] c1 show ?thesis by simp
  next
    case (Some err)
    with Cons.prems(1) a have "g' = g1" by simp
    with w1 c1 show ?thesis by simp
  qed
qed

lemma isolate_detached_wf:
  "isolate_detached (Suc (Suc f)) ev key m ls s = Done s' \<Longrightarrow> keyed s \<Longrightarrow> bounded m s \<Longrightarrow>
   keyed s' \<and> bounded m s' \<and> next_addr s' = next_addr s"
proof (induction ls arbitrary: s)
  case Nil
  then show ?case by simp
next
  case (Cons l ls)
  show ?case
  proof (cases "map_of (nodes l) key")
    case None
    with Cons.prems(1) have "isolate_detached (Suc (Suc f)) ev key m ls s = Done s'" by simp
    from Cons.IH [OF this Cons.prems(2,3)] show ?thesis .
  next
    case (Some nd)
    with Cons.prems(1) obtain s1 where i: "isolate (Suc (Suc f)) ev nd m s = Done s1"
      and r: "isolate_detached (Suc (Suc f)) ev key m ls s1 = Done s'"
      by (simp split: exec.splits)
    from isolate_wf [OF i Cons.prems(2,3)] have w: "keyed s1" "bounded m s1" by simp_all
    from isolate_same [OF i] have "next_addr s1 = next_addr s" by (simp add: same_nodes_def)
    with Cons.IH [OF r w] show ?thesis by simp
  qed
qed

lemma Delete_wf:
  assumes r: "Delete (Suc (Suc f)) ev g key = Done (g', deleted)" and wf: "wf_graph g"
  shows "wf_graph g' \<and> M g' = M g \<and> Distance g' = Distance g"
proof (cases "layers g = []")
  case True
  with r have "g' = g" by (simp add: Delete_def DeleteWithLock_def)
  with wf show ?thesis by simp
next
  case False
  from delete_layers_spec [of f ev key "M g" "layers g" False "[]" "store g"]
  obtain s' where d: "delete_layers (Suc (Suc f)) ev key (M g) (layers g) False [] (store g) =
         Done (map (\<lambda>l. \<lparr>nodes = AList.delete key (nodes l)\<rparr>) (layers g), s',
               \<exists>l \<in> set (layers g). map_of (nodes l) key \<noteq> None)"
    and i: "isolate_detached (Suc (Suc f)) ev key (M g) (layers g) (store g) = Done s'"
    by auto
  from r False d have g': "g' = g\<lparr>layers := map (\<lambda>l. \<lparr>nodes = AList.delete key (nodes l)\<rparr>) (layers g),
      store := s'\<rparr>"
    by (simp add: Delete_def DeleteWithLock_def)
  from wf have k: "keyed (store g)" and b: "bounded (M g) (store g)"
    and la: "layers_allocated (store g) (layers g)" and m0: "0 \<le> M g"
    and dd: "\<forall>d. Distance g = Some d \<longrightarrow> infallible d"
    by (simp_all add: wf_graph_def)
  from isolate_detached_wf [OF i k b] have w: "keyed s'" "bounded (M g) s'"
    and nx: "next_addr s' = next_addr (store g)" by simp_all
  have "layers_allocated s' (map (\<lambda>l. \<lparr>nodes = AList.delete key (nodes l)\<rparr>) (layers g))"
    unfolding layers_allocated_def
  proof (intro ballI allI impI)
    fix l k b
    assume l: "l \<in> set (map (\<lambda>l. \<lparr>nodes = AList.delete key (nodes l)\<rparr>) (layers g))"
      and m: "map_of (nodes l) k = Some b"
    from l obtain l0 where l0: "l0 \<in> set (layers g)" and ll: "l = \<lparr>nodes = AList.delete key (nodes l0)\<rparr>"
      by auto
    from m ll have "map_of (nodes l0) k = Some b" by (simp add: delete_conv' split: if_splits)
    with la l0 nx show "b < next_addr s'" unfolding layers_allocated_def by auto
  qed
  with w m0 dd show ?thesis by (simp add: g' wf_graph_def)
qed

lemma reachable_wf:
  assumes "reachable ev g0 g" and "wf_graph g0"
  shows "wf_graph g \<and> M g = M g0 \<and> Distance g = Distance g0"
  using assms
proof (induction rule: reachable.induct)
  case start
  then show ?case by simp
next
  case (after_Add g fuel nds g' e)
  from after_Add.hyps(2) obtain f where f: "fuel = Suc (Suc (Suc f))"
    by (metis Suc_le_D numeral_3_eq_3 Suc_le_mono)
  from after_Add.IH [OF after_Add.prems] Add_wf [OF after_Add.hyps(3) [unfolded f]]
  show ?case by simp
next
  case (after_Delete g fuel key g' deleted)
  from after_Delete.hyps(2) obtain f where f: "fuel = Suc (Suc f)"
    by (metis Suc_le_D numeral_2_eq_2 le0 le_antisym not_less_eq_eq)
  from after_Delete.IH [OF after_Delete.prems] Delete_wf [OF after_Delete.hyps(3) [unfolded f]]
  show ?case by simp
qed

lemma wf_graph_bounded: "wf_graph g \<Longrightarrow> neighbors_bounded g"
  by (simp add: wf_graph_def bounded_def neighbors_bounded_def deg_def list_all_iff split_beta)

text \<open>
  Where no call of the distance function fails, the bound on the neighbors holds:
  start from a graph without layers whose store holds no edges, with \<open>M \<ge> 0\<close> and
  a distance function that never fails (or none). In every graph reachable by
  completed calls of \<open>Add\<close> and \<open>Delete\<close>, every node of every layer has at most
  \<open>M\<close> neighbors.
\<close>

lemma neighbors_bounded_reachable:
  assumes "0 \<le> M g0" and "\<forall>d. Distance g0 = Some d \<longrightarrow> infallible d"
    and "layers g0 = []" and "\<forall>a. neighbors (objs (store g0) a) = []"
    and "reachable ev g0 g"
  shows "neighbors_bounded g"
proof -
  from assms(1-4) have "wf_graph g0"
    by (simp add: wf_graph_def keyed_def bounded_def deg_def m_len_def layers_allocated_def)
  from reachable_wf [OF assms(5) this] show ?thesis by (simp add: wf_graph_bounded)
qed

lemma neighbors_bounded_reachable_example:
  "0 \<le> M (NewGraph sorted_env half_rng) \<and> layers (NewGraph sorted_env half_rng) = [] \<and>
   (\<exists>g. Add 3 sorted_env (NewGraph sorted_env half_rng) three_nodes = Done (g, None) \<and>
      neighbors_bounded g)"
proof -
  let ?g0 = "NewGraph sorted_env half_rng"
  have 1: "0 \<le> M ?g0" by (simp add: NewGraph_def)
  have 2: "\<forall>d. Distance ?g0 = Some d \<longrightarrow> infallible d"
    by (simp add: NewGraph_def sorted_env_def infallible_def const_distance_def)
  have 3: "layers ?g0 = []" by (simp add: NewGraph_def)
  have 4: "\<forall>a. neighbors (objs (store ?g0) a) = []" by (simp add: NewGraph_def empty_mem_def)
  obtain g where a: "Add 3 sorted_env ?g0 three_nodes = Done (g, None)"
    by (simp add: run_defs)
  have "reachable sorted_env ?g0 g"
    by (rule reachable.after_Add [OF reachable.start _ a]) simp
  from neighbors_bounded_reachable [OF 1 2 3 4 this] 1 3 a show ?thesis by blast
qed

end
